theory Spec2Isabelle
  imports Main "HOL-Library.Word"
begin

unbundle bit_operations_syntax

section \<open>The object store of pkg/store/objectstore/object_store.go\<close>

text \<open>
  Go's \<^verbatim>\<open>uint32\<close> is a 32-bit word. Go's \<^verbatim>\<open>int\<close> (the accounting counters and
  \<^verbatim>\<open>len\<close>) is taken as the 64-bit two's complement integer of the 64-bit platforms:
  \<open>+\<close> wraps, \<open>sint\<close> reads the signed value.
\<close>

type_synonym u32 = "32 word"
type_synonym goint = "64 word"

subsection \<open>Data\<close>

text \<open>
  Modelled from the spec: the declaration of \<^verbatim>\<open>Reference[O]\<close> and its method
  \<^verbatim>\<open>IsNil\<close> are not among the sources. The store builds a reference as
  \<^verbatim>\<open>Reference[O]{chunk: chunk, offset: offset}\<close> from two \<^verbatim>\<open>uint32\<close> values, reads
  \<^verbatim>\<open>r.chunk\<close> and \<^verbatim>\<open>r.offset\<close>, and uses the zero value \<^verbatim>\<open>Reference[O]{}\<close> as nil;
  the spec says that a nil reference has all fields zero and that \<^verbatim>\<open>is_nil\<close> is true
  iff all fields are zero.
\<close>

record Reference =
  chunk :: u32
  offset :: u32

definition nilRef :: Reference where
  "nilRef = \<lparr>chunk = 0, offset = 0\<rparr>"

definition IsNil :: "Reference \<Rightarrow> bool" where
  "IsNil r = (chunk r = 0 \<and> offset r = 0)"

text \<open>\<^verbatim>\<open>type meta[O any] struct { nextFree Reference[O] }\<close>\<close>

record meta =
  nextFree :: Reference

text \<open>
  The store. The field \<^verbatim>\<open>offset\<close> of the Go struct is \<open>soffset\<close> here, since
  \<open>offset\<close> names the field of a reference.
\<close>

record 'o Store =
  chunkSize :: u32
  allocs :: goint
  frees :: goint
  reused :: goint
  soffset :: u32
  rootFree :: Reference
  meta :: "meta list list"
  objects :: "'o list list"

record Stats =
  Allocs :: goint
  Frees :: goint
  RawAllocs :: goint
  Live :: goint
  Reused :: goint
  Chunks :: goint

text \<open>
  The panics of the package: the run-time panic of an index expression out of range, and
  the two explicit panics of \<^verbatim>\<open>Get\<close> and \<^verbatim>\<open>Free\<close>.
\<close>

datatype error = IndexOutOfRange | GetFreed Reference | FreeFreed Reference

text \<open>
  A Go pointer \<^verbatim>\<open>&s.meta[c][o]\<close> or \<^verbatim>\<open>&s.objects[c][o]\<close> is the pair of the two indices:
  the chunks are never moved or resized, \<^verbatim>\<open>append\<close> only adds chunks at the end.
\<close>

type_synonym ptr = "nat \<times> nat"

definition objectChunkSize :: nat where
  "objectChunkSize = 1024"

subsection \<open>Memory access\<close>

text \<open>
  The index expression \<^verbatim>\<open>&xss[c][o]\<close> with \<^verbatim>\<open>uint32\<close> indices: Go panics when an index is
  not below the length.
\<close>

definition index2 :: "'a list list \<Rightarrow> u32 \<Rightarrow> u32 \<Rightarrow> error + ptr" where
  "index2 xss i j =
     (if unat i < length xss
      then (if unat j < length (xss ! unat i) then Inr (unat i, unat j)
            else Inl IndexOutOfRange)
      else Inl IndexOutOfRange)"

definition loadMeta :: "'o Store \<Rightarrow> ptr \<Rightarrow> meta" where
  "loadMeta s p = meta s ! fst p ! snd p"

definition storeMeta :: "'o Store \<Rightarrow> ptr \<Rightarrow> meta \<Rightarrow> 'o Store" where
  "storeMeta s p m = s\<lparr>meta := (meta s)[fst p := (meta s ! fst p)[snd p := m]]\<rparr>"

definition loadObj :: "'o Store \<Rightarrow> ptr \<Rightarrow> 'o" where
  "loadObj s p = objects s ! fst p ! snd p"

text \<open>
  The client's write \<^verbatim>\<open>*p = v\<close> through a pointer that \<^verbatim>\<open>Alloc\<close> or \<^verbatim>\<open>Get\<close> returned.
  Such a pointer is always in range; for any other pair nothing is written.
\<close>

definition storeObj :: "'o Store \<Rightarrow> ptr \<Rightarrow> 'o \<Rightarrow> 'o Store" where
  "storeObj s p v =
     (if fst p < length (objects s) \<and> snd p < length (objects s ! fst p)
      then s\<lparr>objects := (objects s)[fst p := (objects s ! fst p)[snd p := v]]\<rparr>
      else s)"

definition getObject :: "'o Store \<Rightarrow> Reference \<Rightarrow> error + ptr" where
  "getObject s r = index2 (objects s) (chunk r - 1) (offset r - 1)"

definition getMeta :: "'o Store \<Rightarrow> Reference \<Rightarrow> error + ptr" where
  "getMeta s r = index2 (meta s) (chunk r - 1) (offset r - 1)"

subsection \<open>Operations\<close>

text \<open>
  Every operation returns the store as it is when the call returns or panics, together
  with the panic (\<open>Inl\<close>) or the result (\<open>Inr\<close>).
\<close>

definition New :: "'o::zero Store" where
  "New = (let chunkSize = (word_of_nat objectChunkSize :: u32) in
     \<lparr>chunkSize = chunkSize, allocs = 0, frees = 0, reused = 0, soffset = 0,
      rootFree = nilRef,
      meta = [replicate (unat chunkSize) \<lparr>nextFree = nilRef\<rparr>],
      objects = [replicate (unat chunkSize) 0]\<rparr>)"

definition allocFromFree :: "'o Store \<Rightarrow> 'o Store \<times> (error + Reference \<times> ptr)" where
  "allocFromFree s =
     (let alloc = rootFree s in
      case getMeta s alloc of
        Inl e \<Rightarrow> (s, Inl e)
      | Inr freeMeta \<Rightarrow>
          (let nxt = nextFree (loadMeta s freeMeta);
               s1 = storeMeta s freeMeta ((loadMeta s freeMeta)\<lparr>nextFree := nilRef\<rparr>);
               s2 = s1\<lparr>rootFree := nxt\<rparr>;
               s3 = (if nxt = alloc then s2\<lparr>rootFree := nilRef\<rparr> else s2)
           in case getObject s3 alloc of
                Inl e \<Rightarrow> (s3, Inl e)
              | Inr p \<Rightarrow> (s3, Inr (alloc, p))))"

definition allocFromOffset :: "'o::zero Store \<Rightarrow> 'o Store \<times> (error + Reference \<times> ptr)" where
  "allocFromOffset s =
     (let chunk = (word_of_nat (length (objects s)) :: u32);
          s1 = s\<lparr>soffset := soffset s + 1\<rparr>;
          offset = soffset s1;
          s2 = (if soffset s1 = chunkSize s1
                then s1\<lparr>meta := meta s1 @ [replicate (unat (chunkSize s1)) \<lparr>nextFree = nilRef\<rparr>],
                        objects := objects s1 @ [replicate (unat (chunkSize s1)) 0],
                        soffset := 0\<rparr>
                else s1)
      in case index2 (objects s2) (chunk - 1) (offset - 1) of
           Inl e \<Rightarrow> (s2, Inl e)
         | Inr p \<Rightarrow> (s2, Inr (\<lparr>chunk = chunk, offset = offset\<rparr>, p)))"

definition Alloc :: "'o::zero Store \<Rightarrow> 'o Store \<times> (error + Reference \<times> ptr)" where
  "Alloc s =
     (let s1 = s\<lparr>allocs := allocs s + 1\<rparr> in
      if IsNil (rootFree s1) then allocFromOffset s1
      else allocFromFree (s1\<lparr>reused := reused s1 + 1\<rparr>))"

definition Get :: "'o Store \<Rightarrow> Reference \<Rightarrow> 'o Store \<times> (error + ptr)" where
  "Get s r =
     (case getMeta s r of
        Inl e \<Rightarrow> (s, Inl e)
      | Inr m \<Rightarrow>
          if \<not> IsNil (nextFree (loadMeta s m)) then (s, Inl (GetFreed r))
          else (case getObject s r of
                  Inl e \<Rightarrow> (s, Inl e)
                | Inr p \<Rightarrow> (s, Inr p)))"

definition Free :: "'o Store \<Rightarrow> Reference \<Rightarrow> 'o Store \<times> (error + unit)" where
  "Free s r =
     (case getMeta s r of
        Inl e \<Rightarrow> (s, Inl e)
      | Inr m \<Rightarrow>
          if \<not> IsNil (nextFree (loadMeta s m)) then (s, Inl (FreeFreed r))
          else
            (let s1 = s\<lparr>frees := frees s + 1\<rparr>;
                 s2 = (if IsNil (rootFree s1)
                       then storeMeta s1 m ((loadMeta s1 m)\<lparr>nextFree := r\<rparr>)
                       else storeMeta s1 m ((loadMeta s1 m)\<lparr>nextFree := rootFree s1\<rparr>));
                 s3 = s2\<lparr>rootFree := r\<rparr>
             in (s3, Inr ())))"

definition GetStats :: "'o Store \<Rightarrow> Stats" where
  "GetStats s =
     \<lparr>Allocs = allocs s, Frees = frees s, RawAllocs = allocs s - reused s,
      Live = allocs s - frees s, Reused = reused s,
      Chunks = word_of_nat (length (objects s))\<rparr>"

subsection \<open>Runs of a client\<close>

text \<open>
  What a client can do with a store: allocate, free or get any reference value, and write
  through a pointer. A panic leaves the store as the panicking call left it, and the
  client may go on (Go's \<^verbatim>\<open>recover\<close>).
\<close>

datatype 'o op = OpAlloc | OpFree Reference | OpGet Reference | OpWrite ptr 'o

fun step :: "'o::zero Store \<Rightarrow> 'o op \<Rightarrow> 'o Store" where
  "step s OpAlloc = fst (Alloc s)"
| "step s (OpFree r) = fst (Free s r)"
| "step s (OpGet r) = fst (Get s r)"
| "step s (OpWrite p v) = storeObj s p v"

definition run :: "'o::zero op list \<Rightarrow> 'o Store" where
  "run ops = foldl step New ops"

section \<open>Invariants of the store\<close>

text \<open>
  The slot a reference names, the shape every store reached from \<open>New\<close> has, and the
  free list read off the metadata. \<open>freed\<close>, \<open>popped\<close> and \<open>bumped\<close> are the stores
  that a successful \<open>Free\<close>, an \<open>Alloc\<close> from the free list and an \<open>Alloc\<close> from the
  offset leave behind; the lemmas below prove that the operations compute them.
\<close>

definition slot :: "Reference \<Rightarrow> ptr" where
  "slot r = (unat (chunk r - 1), unat (offset r - 1))"

definition inRange :: "'o Store \<Rightarrow> Reference \<Rightarrow> bool" where
  "inRange s r \<longleftrightarrow> unat (chunk r - 1) < length (meta s) \<and> unat (offset r - 1) < objectChunkSize"

definition shape :: "'o Store \<Rightarrow> bool" where
  "shape s \<longleftrightarrow>
     chunkSize s = 1024 \<and> meta s \<noteq> [] \<and> length (objects s) = length (meta s) \<and>
     (\<forall>c \<in> set (meta s). length c = objectChunkSize) \<and>
     (\<forall>c \<in> set (objects s). length c = objectChunkSize) \<and>
     unat (soffset s) < objectChunkSize"

definition nf :: "'o Store \<Rightarrow> Reference \<Rightarrow> Reference" where
  "nf s r = nextFree (loadMeta s (slot r))"

fun chain :: "(Reference \<Rightarrow> Reference) \<Rightarrow> Reference list \<Rightarrow> bool" where
  "chain f [] = True"
| "chain f [r] = (f r = r)"
| "chain f (r # r' # rs) = (f r = r' \<and> chain f (r' # rs))"

definition freeList :: "'o Store \<Rightarrow> Reference list \<Rightarrow> bool" where
  "freeList s xs \<longleftrightarrow>
     distinct xs \<and> (\<forall>r \<in> set xs. inRange s r) \<and> chain (nf s) xs \<and>
     rootFree s = (case xs of [] \<Rightarrow> nilRef | r # _ \<Rightarrow> r) \<and>
     (\<forall>r. inRange s r \<longrightarrow> (IsNil (nf s r) \<longleftrightarrow> r \<notin> set xs))"

definition setNext :: "'o Store \<Rightarrow> Reference \<Rightarrow> Reference \<Rightarrow> meta list list" where
  "setNext s r n = (meta s)[fst (slot r) := (meta s ! fst (slot r))[snd (slot r) := \<lparr>nextFree = n\<rparr>]]"

definition fresh :: "'o Store \<Rightarrow> Reference" where
  "fresh s = \<lparr>chunk = word_of_nat (length (objects s)), offset = soffset s + 1\<rparr>"

definition bumped :: "'o::zero Store \<Rightarrow> 'o Store" where
  "bumped s =
     (if soffset s + 1 = 1024
      then s\<lparr>allocs := allocs s + 1, soffset := 0,
             meta := meta s @ [replicate 1024 \<lparr>nextFree = nilRef\<rparr>],
             objects := objects s @ [replicate 1024 0]\<rparr>
      else s\<lparr>allocs := allocs s + 1, soffset := soffset s + 1\<rparr>)"

definition freed :: "'o Store \<Rightarrow> Reference \<Rightarrow> 'o Store" where
  "freed s r = s\<lparr>frees := frees s + 1,
              meta := setNext s r (if rootFree s = nilRef then r else rootFree s),
              rootFree := r\<rparr>"

definition popped :: "'o Store \<Rightarrow> 'o Store" where
  "popped s = s\<lparr>allocs := allocs s + 1, reused := reused s + 1,
              meta := setNext s (rootFree s) nilRef,
              rootFree := (if nf s (rootFree s) = rootFree s then nilRef else nf s (rootFree s))\<rparr>"

definition inv :: "'o Store \<Rightarrow> bool" where
  "inv s \<longleftrightarrow> shape s \<and> (\<exists>xs. freeList s xs)"

text \<open>
  \<open>allocates s ops r\<close>: some \<open>Alloc\<close> in the run of \<open>ops\<close> from \<open>s\<close> returns the
  reference \<open>r\<close>. \<open>isFree s r\<close>: the slot of \<open>r\<close> exists and its metadata has a non-nil
  \<open>nextFree\<close>.
\<close>

fun allocates :: "'o::zero Store \<Rightarrow> 'o op list \<Rightarrow> Reference \<Rightarrow> bool" where
  "allocates s [] r = False"
| "allocates s (x # xs) r =
     ((x = OpAlloc \<and> (case snd (Alloc s) of Inl e \<Rightarrow> False | Inr (r', p) \<Rightarrow> r' = r)) \<or>
      allocates (step s x) xs r)"

definition isFree :: "'o Store \<Rightarrow> Reference \<Rightarrow> bool" where
  "isFree s r \<longleftrightarrow> inRange s r \<and> nf s r \<noteq> nilRef"

text \<open>
  The ceiling of \<open>a / b\<close> for a positive \<open>b\<close>, and the accounting invariant: after \<open>n\<close>
  operations the counters are the numbers \<open>a\<close> of calls of \<open>Alloc\<close>, \<open>f\<close> of successful
  calls of \<open>Free\<close> and \<open>k\<close> of allocations from the free list, and the slots handed out from
  the offset are the \<open>a - k\<close> slots before the current offset of the last chunk.
\<close>

definition ceilDiv :: "int \<Rightarrow> int \<Rightarrow> int" where
  "ceilDiv a b = - ((- a) div b)"

definition acct :: "'o Store \<Rightarrow> nat \<Rightarrow> bool" where
  "acct s n \<longleftrightarrow>
     (\<exists>a f k. a \<le> n \<and> f \<le> n \<and> k \<le> a \<and>
        allocs s = word_of_nat a \<and> frees s = word_of_nat f \<and> reused s = word_of_nat k \<and>
        (length (objects s) - 1) * objectChunkSize + unat (soffset s) = a - k)"

text \<open>
  \<open>freesOk s rs\<close>: freeing the references \<open>rs\<close> one after the other, starting in \<open>s\<close>,
  succeeds every time. \<open>allocSeq s n\<close>: the results of \<open>n\<close> successive calls of \<open>Alloc\<close>.
\<close>

fun freesOk :: "'o Store \<Rightarrow> Reference list \<Rightarrow> bool" where
  "freesOk s [] = True"
| "freesOk s (r # rs) = (snd (Free s r) = Inr () \<and> freesOk (fst (Free s r)) rs)"

fun allocSeq :: "'o::zero Store \<Rightarrow> nat \<Rightarrow> (error + Reference \<times> ptr) list" where
  "allocSeq s 0 = []"
| "allocSeq s (Suc n) = snd (Alloc s) # allocSeq (fst (Alloc s)) n"

text \<open>Concrete references and stores for the worked examples.\<close>

abbreviation ref11 :: Reference where
  "ref11 \<equiv> \<lparr>chunk = 1, offset = 1\<rparr>"

abbreviation ref12 :: Reference where
  "ref12 \<equiv> \<lparr>chunk = 1, offset = 2\<rparr>"

abbreviation ref13 :: Reference where
  "ref13 \<equiv> \<lparr>chunk = 1, offset = 3\<rparr>"

section \<open>The generation-tagged reference of package pointerstore\<close>

text \<open>
  The tests of package \<^verbatim>\<open>pointerstore\<close> (\<^verbatim>\<open>TestRealloc\<close>,
  \<^verbatim>\<open>TestGenerationDoesNotAppearInOtherFields\<close>) are among the sources; the type
  \<^verbatim>\<open>RefPointer\<close> and its methods are not. They are modelled from section 4.3 of the
  spec. Addresses are 64-bit words. The metadata records live in memory outside the
  reference: \<open>genHeap\<close> maps the address of a metadata record to the generation stored in
  it.
\<close>

type_synonym u64 = "64 word"
type_synonym u8 = "8 word"
type_synonym genHeap = "u64 \<Rightarrow> u8"

datatype rp_error = UseAfterFree

text \<open>
  Modelled from the spec: the type \<^verbatim>\<open>RefPointer\<close> is missing. "A Reference encodes three
  fields into a compact, non-traceable value: data_ptr, meta_ptr, gen: 8 bits. The
  generation is hidden in the top 8 bits of one of the address words (conventionally
  data_ptr)."
\<close>

record RefPointer =
  dataAddress :: u64
  metaAddress :: u64

text \<open>
  Modelled from the spec: the accessor \<^verbatim>\<open>Gen\<close> is missing. "gen(): returns the 8-bit tag",
  which is the top 8 bits of the data address word.
\<close>

definition Gen :: "RefPointer \<Rightarrow> u8" where
  "Gen r = ucast (drop_bit 56 (dataAddress r))"

text \<open>
  Modelled from the spec: \<^verbatim>\<open>setGen\<close> is missing. It stores a generation in the top 8 bits of
  the data address word and keeps the 56 address bits.
\<close>

definition setGen :: "RefPointer \<Rightarrow> u8 \<Rightarrow> RefPointer" where
  "setGen r g = r\<lparr>dataAddress := (dataAddress r AND mask 56) OR push_bit 56 (ucast g)\<rparr>"

text \<open>
  Modelled from the spec: \<^verbatim>\<open>DataPtr\<close> and \<^verbatim>\<open>metadataPtr\<close> are missing. "data_ptr() /
  meta_ptr(): returns the stripped address; fails with UseAfterFree if the stored gen does
  not equal the metadata's current gen. Public accessors MUST mask those bits before
  returning the address for dereference."
\<close>

definition DataPtr :: "genHeap \<Rightarrow> RefPointer \<Rightarrow> rp_error + u64" where
  "DataPtr h r =
     (if h (metaAddress r) \<noteq> Gen r then Inl UseAfterFree
      else Inr (dataAddress r AND mask 56))"

definition metadataPtr :: "genHeap \<Rightarrow> RefPointer \<Rightarrow> rp_error + u64" where
  "metadataPtr h r =
     (if h (metaAddress r) \<noteq> Gen r then Inl UseAfterFree
      else Inr (metaAddress r))"

text \<open>
  Modelled from the spec: \<^verbatim>\<open>Realloc\<close> is missing. "realloc(): returns a new Reference to
  the same slot with the metadata's generation bumped; the old Reference becomes invalid";
  the generation is incremented modulo 256. The result is the memory after the call and the
  new reference.
\<close>

definition Realloc :: "genHeap \<Rightarrow> RefPointer \<Rightarrow> genHeap \<times> RefPointer" where
  "Realloc h r =
     (let g = h (metaAddress r) + 1
      in (h(metaAddress r := g), setGen r g))"

section \<open>Lemmas about the operations\<close>

lemma IsNil_iff: "IsNil r \<longleftrightarrow> r = nilRef"
  by (cases r) (auto simp: IsNil_def nilRef_def)

lemma slot_inj: "slot r = slot r' \<Longrightarrow> r = r'"
  by (cases r; cases r') (simp add: slot_def word_unat_eq_iff [symmetric])

lemma unat_m1_u32: "unat (- 1 :: u32) = 4294967295"
  by (simp add: unsigned_minus_1_eq_mask mask_eq_exp_minus_1)

lemma inRange_offset: "inRange s r \<Longrightarrow> offset r \<noteq> 0"
  by (auto simp: inRange_def objectChunkSize_def unat_m1_u32)

lemma inRange_not_nil: "inRange s r \<Longrightarrow> r \<noteq> nilRef"
  by (auto simp: nilRef_def dest: inRange_offset)

lemma getMeta_shape:
  "shape s \<Longrightarrow> getMeta s r = (if inRange s r then Inr (slot r) else Inl IndexOutOfRange)"
  by (auto simp: getMeta_def index2_def shape_def inRange_def slot_def)

lemma getObject_shape:
  "shape s \<Longrightarrow> getObject s r = (if inRange s r then Inr (slot r) else Inl IndexOutOfRange)"
  by (auto simp: getObject_def index2_def shape_def inRange_def slot_def)

lemma shape_New: "shape (New :: 'o::zero Store)"
  by (simp add: shape_def New_def objectChunkSize_def Let_def)

lemma freeList_New: "freeList (New :: 'o::zero Store) []"
  by (auto simp: freeList_def New_def objectChunkSize_def Let_def nf_def loadMeta_def inRange_def slot_def IsNil_iff)

lemma meta_set [simp]: "(m::meta)\<lparr>nextFree := x\<rparr> = \<lparr>nextFree = x\<rparr>"
  by (cases m) simp

lemma Free_eq:
  "shape s \<Longrightarrow> Free s r =
     (if \<not> inRange s r then (s, Inl IndexOutOfRange)
      else if nf s r \<noteq> nilRef then (s, Inl (FreeFreed r))
      else (freed s r, Inr ()))"
  by (simp add: Free_def getMeta_shape IsNil_iff nf_def Let_def storeMeta_def loadMeta_def setNext_def
      freed_def)

lemma allocFromFree_eq:
  "shape s \<Longrightarrow> allocFromFree s =
     (if \<not> inRange s (rootFree s) then (s, Inl IndexOutOfRange)
      else (s\<lparr>meta := setNext s (rootFree s) nilRef,
              rootFree := (if nf s (rootFree s) = rootFree s then nilRef else nf s (rootFree s))\<rparr>,
            Inr (rootFree s, slot (rootFree s))))"
  apply (simp add: allocFromFree_def getMeta_shape Let_def)
  apply (auto simp: getObject_def index2_def shape_def inRange_def slot_def storeMeta_def nf_def loadMeta_def setNext_def)
  done

lemma unat_pred_of_nat_less: "0 < n \<Longrightarrow> unat (word_of_nat n - 1 :: u32) < n"
proof (cases "(word_of_nat n :: u32) = 0")
  case True
  assume "0 < n"
  from True have "2 ^ 32 dvd n"
    by (simp add: word_of_nat_eq_0_iff)
  with \<open>0 < n\<close> have "2 ^ 32 \<le> n"
    by (auto dest: dvd_imp_le)
  with True show ?thesis
    by (simp add: unat_m1_u32)
next
  case False
  assume "0 < n"
  have "unat (word_of_nat n :: u32) \<le> n"
    by (simp add: unat_of_nat)
  moreover from False have "unat (word_of_nat n :: u32) \<noteq> 0"
    by (simp add: unat_0_iff)
  ultimately show ?thesis
    using False by (simp add: unat_minus_one)
qed

lemma slot_fresh: "slot (fresh s) = (unat (word_of_nat (length (objects s)) - 1 :: u32), unat (soffset s))"
  by (simp add: slot_def fresh_def)

lemma inRange_fresh: "shape s \<Longrightarrow> inRange s (fresh s)"
  using unat_pred_of_nat_less [of "length (objects s)"]
  by (auto simp: inRange_def fresh_def shape_def objectChunkSize_def)

lemma allocFromOffset_eq:
  "shape s \<Longrightarrow> allocFromOffset (s\<lparr>allocs := allocs s + 1\<rparr>) = (bumped s, Inr (fresh s, slot (fresh s)))"
  using inRange_fresh [of s]
  apply (simp add: allocFromOffset_def Let_def)
  apply (auto simp: index2_def shape_def inRange_def slot_def fresh_def bumped_def objectChunkSize_def nth_append)
  done

lemma Alloc_eq:
  "shape s \<Longrightarrow> Alloc s =
     (if rootFree s = nilRef then (bumped s, Inr (fresh s, slot (fresh s)))
      else if \<not> inRange s (rootFree s)
      then (s\<lparr>allocs := allocs s + 1, reused := reused s + 1\<rparr>, Inl IndexOutOfRange)
      else (popped s, Inr (rootFree s, slot (rootFree s))))"
  by (simp add: Alloc_def Let_def IsNil_iff allocFromOffset_eq)
    (simp add: allocFromFree_eq shape_def inRange_def nf_def loadMeta_def setNext_def popped_def)

lemma inRange_cong: "length (meta s') = length (meta s) \<Longrightarrow> inRange s' r = inRange s r"
  by (simp add: inRange_def)

lemma length_setNext [simp]: "length (setNext s r n) = length (meta s)"
  by (simp add: setNext_def)

lemma slot_bounds:
  assumes "shape s" and "inRange s r"
  shows "fst (slot r) < length (meta s)" and "snd (slot r) < length (meta s ! fst (slot r))"
    and "fst (slot r) < length (objects s)" and "snd (slot r) < length (objects s ! fst (slot r))"
  using assms by (auto simp: slot_def inRange_def shape_def)

lemma nf_setNext:
  assumes "meta s' = setNext s r n" and "shape s" and "inRange s r" and "inRange s r'"
  shows "nf s' r' = (if r' = r then n else nf s r')"
proof (cases "r' = r")
  case True
  with assms(1) slot_bounds [OF assms(2,3)] show ?thesis
    by (simp add: nf_def loadMeta_def setNext_def)
next
  case False
  then have "slot r' \<noteq> slot r"
    by (auto dest: slot_inj)
  with assms False show ?thesis
    by (cases "fst (slot r') = fst (slot r)")
      (auto simp: nf_def loadMeta_def setNext_def inRange_def shape_def slot_def)
qed

lemma set_setNext:
  assumes "shape s" and "c \<in> set (setNext s r n)"
  shows "length c = objectChunkSize"
proof -
  from assms(2) obtain i where i: "i < length (meta s)" "c = setNext s r n ! i"
    by (auto simp: in_set_conv_nth)
  with assms(1) show ?thesis
    by (cases "i = fst (slot r)") (auto simp: setNext_def shape_def)
qed

lemma shape_setNext:
  assumes "shape s" and "meta s' = setNext s r n" and "objects s' = objects s"
    and "chunkSize s' = chunkSize s" and "soffset s' = soffset s"
  shows "shape s'"
  using assms set_setNext [OF assms(1), of _ r n]
  by (auto simp: shape_def setNext_def)

lemma unat_succ_u32: "unat (x :: u32) < 1024 \<Longrightarrow> unat (x + 1) = Suc (unat x)"
  by (simp add: unat_word_ariths)

lemma succ_eq_1024: "unat (x :: u32) < 1024 \<Longrightarrow> x + 1 = 1024 \<longleftrightarrow> unat x = 1023"
  using unat_succ_u32 [of x] by (auto simp: word_unat_eq_iff)

lemma shape_bumped: "shape s \<Longrightarrow> shape (bumped s)"
  by (auto simp: shape_def bumped_def objectChunkSize_def unat_succ_u32 succ_eq_1024)

lemma chain_cong: "(\<And>x. x \<in> set xs \<Longrightarrow> g x = f x) \<Longrightarrow> chain g xs = chain f xs"
  by (induction f xs rule: chain.induct) auto

lemma chain_Cons: "chain f (r # xs) \<longleftrightarrow> f r = (case xs of [] \<Rightarrow> r | x # _ \<Rightarrow> x) \<and> chain f xs"
  by (cases xs) auto

lemma freeList_root: "freeList s xs \<Longrightarrow> rootFree s = (case xs of [] \<Rightarrow> nilRef | r # _ \<Rightarrow> r)"
  by (simp add: freeList_def)

lemma freeList_nil_iff: "freeList s xs \<Longrightarrow> inRange s r \<Longrightarrow> nf s r = nilRef \<longleftrightarrow> r \<notin> set xs"
  by (simp add: freeList_def IsNil_iff)

lemma freeList_inRange: "freeList s xs \<Longrightarrow> x \<in> set xs \<Longrightarrow> inRange s x"
  by (simp add: freeList_def)

lemma freeList_distinct: "freeList s xs \<Longrightarrow> distinct xs"
  by (simp add: freeList_def)

lemma freeList_chain: "freeList s xs \<Longrightarrow> chain (nf s) xs"
  by (simp add: freeList_def)

lemma freeListI:
  assumes "distinct xs" and "\<And>x. x \<in> set xs \<Longrightarrow> inRange s x" and "chain (nf s) xs"
    and "rootFree s = (case xs of [] \<Rightarrow> nilRef | r # _ \<Rightarrow> r)"
    and "\<And>r. inRange s r \<Longrightarrow> nf s r = nilRef \<longleftrightarrow> r \<notin> set xs"
  shows "freeList s xs"
  using assms unfolding freeList_def IsNil_iff by blast

lemma freeList_freed:
  assumes sh: "shape s" and fl: "freeList s xs" and r: "inRange s r" and nil: "nf s r = nilRef"
  shows "freeList (freed s r) (r # xs)"
proof (rule freeListI)
  let ?n = "if rootFree s = nilRef then r else rootFree s"
  have m: "meta (freed s r) = setNext s r ?n" by (simp add: freed_def)
  have rng: "inRange (freed s r) x = inRange s x" for x
    by (rule inRange_cong) (simp add: m)
  have nf': "nf (freed s r) r' = (if r' = r then ?n else nf s r')" if "inRange s r'" for r'
    using m sh r that by (rule nf_setNext)
  from fl r nil have notin: "r \<notin> set xs"
    by (simp add: freeList_nil_iff)
  have root: "rootFree s = (case xs of [] \<Rightarrow> nilRef | x # _ \<Rightarrow> x)"
    using fl by (rule freeList_root)
  have n: "?n = (case xs of [] \<Rightarrow> r | x # _ \<Rightarrow> x)"
  proof (cases xs)
    case Nil
    with root show ?thesis by simp
  next
    case (Cons x xs')
    with fl have "inRange s x" by (simp add: freeList_inRange)
    then have "x \<noteq> nilRef" by (rule inRange_not_nil)
    with Cons root show ?thesis by simp
  qed
  have nn: "?n \<noteq> nilRef"
  proof (cases xs)
    case Nil
    with n r show ?thesis by (simp add: inRange_not_nil del: if_split)
  next
    case (Cons x xs')
    with fl have "inRange s x" by (simp add: freeList_inRange)
    then have "x \<noteq> nilRef" by (rule inRange_not_nil)
    with Cons n show ?thesis by (simp del: if_split)
  qed
  show "distinct (r # xs)"
    using notin freeList_distinct [OF fl] by simp
  show "inRange (freed s r) x" if "x \<in> set (r # xs)" for x
    using that r freeList_inRange [OF fl] by (auto simp: rng)
  have "chain (nf (freed s r)) xs = chain (nf s) xs"
  proof (rule chain_cong)
    fix x assume x: "x \<in> set xs"
    with notin have "x \<noteq> r" by auto
    moreover from x fl have "inRange s x" by (simp add: freeList_inRange)
    ultimately show "nf (freed s r) x = nf s x" by (simp add: nf')
  qed
  moreover have "nf (freed s r) r = (case xs of [] \<Rightarrow> r | x # _ \<Rightarrow> x)"
    using nf' [OF r] n by (simp del: if_split)
  ultimately show "chain (nf (freed s r)) (r # xs)"
    using freeList_chain [OF fl] by (simp add: chain_Cons)
  show "rootFree (freed s r) = (case r # xs of [] \<Rightarrow> nilRef | x # _ \<Rightarrow> x)"
    by (simp add: freed_def)
  show "nf (freed s r) r' = nilRef \<longleftrightarrow> r' \<notin> set (r # xs)" if "inRange (freed s r) r'" for r'
  proof (cases "r' = r")
    case True
    with nf' [OF r] nn show ?thesis by (simp del: if_split)
  next
    case False
    from that have "inRange s r'" by (simp add: rng)
    with False fl show ?thesis by (simp add: nf' freeList_nil_iff)
  qed
qed

lemma freeList_popped:
  assumes sh: "shape s" and fl: "freeList s (r # xs)"
  shows "freeList (popped s) xs"
proof (rule freeListI)
  from fl have root: "rootFree s = r"
    by (simp add: freeList_root)
  from fl have r: "inRange s r"
    by (simp add: freeList_inRange)
  from freeList_distinct [OF fl] have notin: "r \<notin> set xs" and dist: "distinct xs"
    by simp_all
  from freeList_chain [OF fl] have nfr: "nf s r = (case xs of [] \<Rightarrow> r | x # _ \<Rightarrow> x)"
    and ch: "chain (nf s) xs"
    by (simp_all add: chain_Cons)
  have inr: "inRange s x" if "x \<in> set xs" for x
    using fl that by (simp add: freeList_inRange)
  have m: "meta (popped s) = setNext s r nilRef"
    by (simp add: popped_def root)
  have rng: "inRange (popped s) x = inRange s x" for x
    by (rule inRange_cong) (simp add: m)
  have nf': "nf (popped s) r' = (if r' = r then nilRef else nf s r')" if "inRange s r'" for r'
    using m sh r that by (rule nf_setNext)
  show "distinct xs" by (rule dist)
  show "inRange (popped s) x" if "x \<in> set xs" for x
    using that by (simp add: rng inr)
  have "chain (nf (popped s)) xs = chain (nf s) xs"
  proof (rule chain_cong)
    fix x assume x: "x \<in> set xs"
    with notin have "x \<noteq> r" by auto
    with x show "nf (popped s) x = nf s x" by (simp add: nf' inr)
  qed
  with ch show "chain (nf (popped s)) xs" by simp
  show "rootFree (popped s) = (case xs of [] \<Rightarrow> nilRef | x # _ \<Rightarrow> x)"
    using notin by (cases xs) (auto simp: popped_def root nfr)
  show "nf (popped s) r' = nilRef \<longleftrightarrow> r' \<notin> set xs" if "inRange (popped s) r'" for r'
  proof (cases "r' = r")
    case True
    with nf' [OF r] notin show ?thesis by simp
  next
    case False
    from that have "inRange s r'" by (simp add: rng)
    with False freeList_nil_iff [OF fl, of r'] show ?thesis by (simp add: nf')
  qed
qed

lemma nf_bumped:
  assumes "shape s" and "inRange (bumped s) r" and "\<not> inRange s r"
  shows "nf (bumped s) r = nilRef"
proof -
  from assms(2,3) have *: "soffset s + 1 = 1024" "unat (chunk r - 1) = length (meta s)"
    "unat (offset r - 1) < 1024"
    by (auto simp: bumped_def inRange_def objectChunkSize_def split: if_splits)
  then show ?thesis
    by (simp add: nf_def loadMeta_def slot_def bumped_def)
qed

lemma nf_bumped_old:
  assumes "shape s" and "inRange s r"
  shows "nf (bumped s) r = nf s r"
  using assms by (auto simp: nf_def loadMeta_def slot_def bumped_def inRange_def nth_append)

lemma freeList_bumped:
  assumes sh: "shape s" and fl: "freeList s []"
  shows "freeList (bumped s) []"
proof -
  have "IsNil (nf (bumped s) r)" if "inRange (bumped s) r" for r
  proof (cases "inRange s r")
    case True
    with fl sh show ?thesis by (simp add: nf_bumped_old freeList_def)
  next
    case False
    with sh that show ?thesis by (simp add: nf_bumped IsNil_iff)
  qed
  moreover have "rootFree (bumped s) = rootFree s"
    by (simp add: bumped_def)
  ultimately show ?thesis
    using fl by (simp add: freeList_def)
qed

lemma shape_freed: "shape s \<Longrightarrow> shape (freed s r)"
  by (rule shape_setNext [where r = r]) (simp_all add: freed_def)

lemma shape_popped: "shape s \<Longrightarrow> shape (popped s)"
  by (rule shape_setNext [where r = "rootFree s"]) (simp_all add: popped_def)

lemma Get_fst: "fst (Get s r) = s"
  by (simp add: Get_def split: sum.splits)

lemma Get_eq:
  "shape s \<Longrightarrow> Get s r =
     (if \<not> inRange s r then (s, Inl IndexOutOfRange)
      else if nf s r \<noteq> nilRef then (s, Inl (GetFreed r))
      else (s, Inr (slot r)))"
  by (simp add: Get_def getMeta_shape getObject_shape IsNil_iff nf_def)

lemma shape_storeObj: "shape s \<Longrightarrow> shape (storeObj s p v)"
proof -
  assume sh: "shape s"
  have "length c = objectChunkSize"
    if "c \<in> set ((objects s)[fst p := (objects s ! fst p)[snd p := v]])" for c
  proof -
    from that obtain i where "i < length (objects s)"
      and "c = (objects s)[fst p := (objects s ! fst p)[snd p := v]] ! i"
      by (auto simp: in_set_conv_nth)
    with sh show ?thesis
      by (cases "i = fst p") (auto simp: shape_def)
  qed
  with sh show ?thesis
    by (auto simp: shape_def storeObj_def)
qed

lemma meta_storeObj [simp]: "meta (storeObj s p v) = meta s"
  by (simp add: storeObj_def)

lemma rootFree_storeObj [simp]: "rootFree (storeObj s p v) = rootFree s"
  by (simp add: storeObj_def)

lemma freeList_meta_cong:
  "meta s' = meta s \<Longrightarrow> rootFree s' = rootFree s \<Longrightarrow> freeList s' xs = freeList s xs"
proof -
  assume m: "meta s' = meta s" and r: "rootFree s' = rootFree s"
  have "nf s' = nf s"
    by (rule ext) (simp add: nf_def loadMeta_def m)
  moreover have "inRange s' = inRange s"
    by (rule ext) (simp add: inRange_def m)
  ultimately show ?thesis
    by (simp add: freeList_def r)
qed

lemma inv_New: "inv (New :: 'o::zero Store)"
  using shape_New freeList_New by (auto simp: inv_def)

lemma inv_Free:
  assumes "inv s"
  shows "inv (fst (Free s r))"
proof -
  from assms obtain xs where sh: "shape s" and fl: "freeList s xs"
    by (auto simp: inv_def)
  show ?thesis
  proof (cases "inRange s r \<and> nf s r = nilRef")
    case True
    with sh have "fst (Free s r) = freed s r"
      by (simp add: Free_eq)
    moreover from sh fl True have "freeList (freed s r) (r # xs)"
      by (simp add: freeList_freed)
    ultimately show ?thesis
      using sh unfolding inv_def by (metis shape_freed)
  next
    case False
    with sh have "fst (Free s r) = s"
      by (auto simp: Free_eq)
    with assms show ?thesis by simp
  qed
qed

lemma inv_Alloc:
  assumes "inv s"
  shows "inv (fst (Alloc s))"
proof -
  from assms obtain xs where sh: "shape s" and fl: "freeList s xs"
    by (auto simp: inv_def)
  show ?thesis
  proof (cases xs)
    case Nil
    with fl have "rootFree s = nilRef" by (simp add: freeList_root)
    with sh have "fst (Alloc s) = bumped s"
      by (simp add: Alloc_eq)
    moreover from sh fl Nil have "freeList (bumped s) []"
      by (simp add: freeList_bumped)
    ultimately show ?thesis
      using sh unfolding inv_def by (metis shape_bumped)
  next
    case (Cons r xs')
    with fl have root: "rootFree s = r" and r: "inRange s r"
      by (simp_all add: freeList_root freeList_inRange)
    from r have "r \<noteq> nilRef" by (rule inRange_not_nil)
    with sh root r have "fst (Alloc s) = popped s"
      by (simp add: Alloc_eq)
    moreover from sh fl Cons have "freeList (popped s) xs'"
      by (simp add: freeList_popped)
    ultimately show ?thesis
      using sh unfolding inv_def by (metis shape_popped)
  qed
qed

lemma inv_storeObj: "inv s \<Longrightarrow> inv (storeObj s p v)"
proof -
  have "freeList (storeObj s p v) = freeList s"
    by (rule ext, rule freeList_meta_cong) simp_all
  then show "inv s \<Longrightarrow> inv (storeObj s p v)"
    by (simp add: inv_def shape_storeObj)
qed

lemma inv_step: "inv s \<Longrightarrow> inv (step s x)"
  by (cases x) (simp_all add: inv_Alloc inv_Free Get_fst inv_storeObj)

lemma inv_foldl: "inv s \<Longrightarrow> inv (foldl step s xs)"
  by (induction xs arbitrary: s) (simp_all add: inv_step)

lemma inv_run: "inv (run xs)"
  by (simp add: run_def inv_foldl inv_New)

lemma shape_run: "shape (run xs)"
  using inv_run [of xs] by (simp add: inv_def)

lemma Free_success:
  assumes "shape s" and "snd (Free s r) = Inr u"
  shows "inRange s r" and "nf s r = nilRef" and "Free s r = (freed s r, Inr ())"
  using assms by (auto simp: Free_eq split: if_splits)

lemma nf_freed_self:
  assumes "shape s" and "inRange s r"
  shows "nf (freed s r) r = (if rootFree s = nilRef then r else rootFree s)"
  by (rule nf_setNext [where s = s and r = r, THEN trans]) (use assms in \<open>simp_all add: freed_def\<close>)

lemma inRange_freed: "inRange (freed s r) x = inRange s x"
  by (rule inRange_cong) (simp add: freed_def)

lemma inRange_popped: "inRange (popped s) x = inRange s x"
  by (rule inRange_cong) (simp add: popped_def)

lemma double_Free:
  assumes "inv s" and "snd (Free s r) = Inr u"
  shows "Free (fst (Free s r)) r = (fst (Free s r), Inl (FreeFreed r))"
    and "nf (fst (Free s r)) r \<noteq> nilRef"
proof -
  from assms(1) obtain xs where sh: "shape s" and fl: "freeList s xs"
    by (auto simp: inv_def)
  note f = Free_success [OF sh assms(2)]
  from sh fl f(1,2) have fl': "freeList (freed s r) (r # xs)"
    by (rule freeList_freed)
  have r': "inRange (freed s r) r"
    by (simp add: inRange_freed f(1))
  from freeList_nil_iff [OF fl' r'] have nn: "nf (freed s r) r \<noteq> nilRef"
    by simp
  from sh have "shape (freed s r)" by (rule shape_freed)
  with r' nn have "Free (freed s r) r = (freed s r, Inl (FreeFreed r))"
    by (simp add: Free_eq)
  with f(3) show "Free (fst (Free s r)) r = (fst (Free s r), Inl (FreeFreed r))"
    by simp
  from nn f(3) show "nf (fst (Free s r)) r \<noteq> nilRef" by simp
qed

lemma nf_freed_other:
  assumes "shape s" and "inRange s r" and "inRange s x" and "x \<noteq> r"
  shows "nf (freed s r) x = nf s x"
  by (rule nf_setNext [where s = s and r = r and r' = x, THEN trans])
    (use assms in \<open>simp_all add: freed_def\<close>)

lemma nf_popped_other:
  assumes "shape s" and "inRange s (rootFree s)" and "inRange s x" and "x \<noteq> rootFree s"
  shows "nf (popped s) x = nf s x"
  by (rule nf_setNext [where s = s and r = "rootFree s" and r' = x, THEN trans])
    (use assms in \<open>simp_all add: popped_def\<close>)

lemma nf_popped_self:
  assumes "shape s" and "inRange s (rootFree s)"
  shows "nf (popped s) (rootFree s) = nilRef"
  by (rule nf_setNext [where s = s and r = "rootFree s" and r' = "rootFree s", THEN trans])
    (use assms in \<open>simp_all add: popped_def\<close>)

lemma isFree_root:
  assumes "inv s" and "isFree s r"
  shows "rootFree s \<noteq> nilRef" and "inRange s (rootFree s)"
proof -
  from assms(1) obtain xs where sh: "shape s" and fl: "freeList s xs"
    by (auto simp: inv_def)
  from assms(2) freeList_nil_iff [OF fl, of r] have "r \<in> set xs"
    by (simp add: isFree_def)
  then obtain y ys where xs: "xs = y # ys" by (cases xs) auto
  with fl have "rootFree s = y" by (simp add: freeList_root)
  moreover from fl xs have "inRange s y" by (simp add: freeList_inRange)
  ultimately show "inRange s (rootFree s)" by simp
  then show "rootFree s \<noteq> nilRef" by (rule inRange_not_nil)
qed

lemma isFree_step:
  assumes i: "inv s" and f: "isFree s r" and n: "\<not> allocates s [x] r"
  shows "isFree (step s x) r"
proof (cases x)
  case OpAlloc
  from i have sh: "shape s" by (simp add: inv_def)
  note rt = isFree_root [OF i f]
  with sh have a: "Alloc s = (popped s, Inr (rootFree s, slot (rootFree s)))"
    by (simp add: Alloc_eq)
  with n OpAlloc have ne: "r \<noteq> rootFree s" by auto
  from f have "inRange s r" by (simp add: isFree_def)
  with sh rt ne have "nf (popped s) r = nf s r"
    by (simp add: nf_popped_other)
  with f a OpAlloc show ?thesis
    by (simp add: isFree_def inRange_popped)
next
  case (OpFree r')
  from i have sh: "shape s" by (simp add: inv_def)
  show ?thesis
  proof (cases "inRange s r' \<and> nf s r' = nilRef")
    case True
    with f have ne: "r \<noteq> r'" by (auto simp: isFree_def)
    from True sh have "Free s r' = (freed s r', Inr ())" by (simp add: Free_eq)
    moreover from sh True f ne have "nf (freed s r') r = nf s r"
      by (simp add: nf_freed_other isFree_def)
    ultimately show ?thesis
      using f OpFree by (simp add: isFree_def inRange_freed)
  next
    case False
    with sh have "fst (Free s r') = s" by (auto simp: Free_eq)
    with f OpFree show ?thesis by simp
  qed
next
  case (OpGet r')
  with f show ?thesis by (simp add: Get_fst)
next
  case (OpWrite p v)
  have "nf (storeObj s p v) r = nf s r"
    by (simp add: nf_def loadMeta_def)
  moreover have "inRange (storeObj s p v) r = inRange s r"
    by (rule inRange_cong) simp
  ultimately show ?thesis
    using f OpWrite by (simp add: isFree_def)
qed

lemma isFree_foldl:
  "inv s \<Longrightarrow> isFree s r \<Longrightarrow> \<not> allocates s xs r \<Longrightarrow> isFree (foldl step s xs) r"
proof (induction xs arbitrary: s)
  case Nil
  then show ?case by simp
next
  case (Cons x xs)
  from Cons.prems(3) have "\<not> allocates s [x] r" and "\<not> allocates (step s x) xs r"
    by auto
  with Cons.prems(1,2) have "isFree (step s x) r"
    by (simp add: isFree_step)
  with Cons.IH [of "step s x"] Cons.prems(1) \<open>\<not> allocates (step s x) xs r\<close>
  show ?case by (simp add: inv_step)
qed

lemma isFree_panics:
  assumes "shape s" and "isFree s r"
  shows "Free s r = (s, Inl (FreeFreed r))" and "Get s r = (s, Inl (GetFreed r))"
  using assms by (simp_all add: Free_eq Get_eq isFree_def)

lemma isFree_after_Free:
  assumes "inv s" and "snd (Free s r) = Inr u"
  shows "isFree (fst (Free s r)) r"
proof -
  from assms(1) have sh: "shape s" by (simp add: inv_def)
  note f = Free_success [OF sh assms(2)]
  from double_Free(2) [OF assms] f show ?thesis
    by (simp add: isFree_def inRange_freed)
qed

lemma run_snoc: "run (xs @ [x]) = step (run xs) x"
  by (simp add: run_def)

lemma run_append: "run (xs @ ys) = foldl step (run xs) ys"
  by (simp add: run_def)

lemma Alloc_ok:
  assumes "inv s"
  shows "\<exists>r. snd (Alloc s) = Inr (r, slot r) \<and> inRange (fst (Alloc s)) r \<and> nf (fst (Alloc s)) r = nilRef"
proof -
  from assms obtain xs where sh: "shape s" and fl: "freeList s xs"
    by (auto simp: inv_def)
  show ?thesis
  proof (cases xs)
    case Nil
    with fl have rt: "rootFree s = nilRef" by (simp add: freeList_root)
    with sh have a: "Alloc s = (bumped s, Inr (fresh s, slot (fresh s)))"
      by (simp add: Alloc_eq)
    from sh have fr: "inRange s (fresh s)" by (rule inRange_fresh)
    then have "inRange (bumped s) (fresh s)"
      by (auto simp: inRange_def bumped_def)
    moreover from fl Nil fr have "nf s (fresh s) = nilRef"
      by (simp add: freeList_nil_iff)
    with sh fr have "nf (bumped s) (fresh s) = nilRef"
      by (simp add: nf_bumped_old)
    ultimately show ?thesis using a by simp
  next
    case (Cons y ys)
    with fl have rt: "rootFree s = y" and y: "inRange s y"
      by (simp_all add: freeList_root freeList_inRange)
    from y have "y \<noteq> nilRef" by (rule inRange_not_nil)
    with sh rt y have a: "Alloc s = (popped s, Inr (y, slot y))"
      by (simp add: Alloc_eq)
    from sh y rt have "nf (popped s) y = nilRef"
      using nf_popped_self [of s] by simp
    with a y show ?thesis by (simp add: inRange_popped)
  qed
qed

lemma getMeta_Inl: "getMeta s r = Inl e \<Longrightarrow> e = IndexOutOfRange"
  by (auto simp: getMeta_def index2_def split: if_splits)

lemmas ops_defs = run_def New_def Alloc_def allocFromOffset_def allocFromFree_def Free_def Get_def
  getMeta_def getObject_def index2_def loadMeta_def storeMeta_def storeObj_def loadObj_def
  IsNil_def nilRef_def objectChunkSize_def Let_def

section \<open>The claims\<close>

subsection \<open>C10: a panicking call leaves the store as it was\<close>

text \<open>
  C10. When \<open>Free r\<close> panics because the metadata of the slot already has a non-nil
  \<open>nextFree\<close> (a double free), the store is unchanged: the panic comes before
  \<open>frees\<close> is incremented and before any write to the metadata or the root of the free
  list. The same holds for every other panic of \<open>Free\<close> (the index out of range), and a
  panicking \<open>Get\<close> leaves the store unchanged as well. The theorem holds for every store
  value, reachable or not.
\<close>

theorem Free_Get_panic_unchanged:
  "(getMeta s r = Inr m \<and> \<not> IsNil (nextFree (loadMeta s m)) \<longrightarrow>
      Free s r = (s, Inl (FreeFreed r))) \<and>
   (snd (Free s r) = Inl e \<longrightarrow> fst (Free s r) = s) \<and>
   (snd (Get s r) = Inl e' \<longrightarrow> fst (Get s r) = s)"
  by (auto simp: Free_def Get_def Let_def split: sum.splits if_splits)

theorem Free_Get_panic_unchanged_witness:
  "getMeta (run [OpAlloc, OpFree ref11] :: nat Store) ref11 = Inr (0, 0) \<and>
   \<not> IsNil (nextFree (loadMeta (run [OpAlloc, OpFree ref11] :: nat Store) (0, 0))) \<and>
   Free (run [OpAlloc, OpFree ref11] :: nat Store) ref11 =
     (run [OpAlloc, OpFree ref11], Inl (FreeFreed ref11)) \<and>
   frees (fst (Free (run [OpAlloc, OpFree ref11] :: nat Store) ref11)) = 1 \<and>
   snd (Get (run [OpAlloc, OpFree ref11] :: nat Store) ref11) = Inl (GetFreed ref11) \<and>
   fst (Get (run [OpAlloc, OpFree ref11] :: nat Store) ref11) = run [OpAlloc, OpFree ref11]"
proof -
  let ?s = "run [OpAlloc, OpFree ref11] :: nat Store"
  have h1: "getMeta ?s ref11 = Inr (0, 0)"
    by (simp add: ops_defs)
  have h2: "\<not> IsNil (nextFree (loadMeta ?s (0, 0)))"
    by (simp add: ops_defs)
  have h3: "snd (Free ?s ref11) = Inl (FreeFreed ref11)"
    by (simp add: ops_defs)
  have h4: "snd (Get ?s ref11) = Inl (GetFreed ref11)"
    by (simp add: ops_defs)
  have h5: "frees ?s = 1"
    by (simp add: ops_defs)
  from Free_Get_panic_unchanged [of ?s ref11 "(0, 0)" "FreeFreed ref11" "GetFreed ref11"]
    h1 h2 h3 h4 h5
  show ?thesis by simp
qed

subsection \<open>C7: Get writes nothing and reads only the target slot\<close>



subsection \<open>C4: freeing twice\<close>

text \<open>
  C4. Every reference that \<open>Alloc\<close> returns can be freed. Once \<open>Free r\<close> has succeeded,
  a second \<open>Free r\<close> panics with "attempted to Free freed object", directly afterwards and
  after any further operations among which no \<open>Alloc\<close> hands the slot out again, and it
  leaves the store unchanged. The trigger of this panic is exactly that the metadata of the
  slot has a non-nil \<open>nextFree\<close>.
\<close>

theorem double_Free_panics:
  "(Alloc (run ops) = (s1, Inr (r, p)) \<longrightarrow> snd (Free s1 r) = Inr ()) \<and>
   (snd (Free (run ops) r') = Inr () \<and> \<not> allocates (run (ops @ [OpFree r'])) ops' r' \<longrightarrow>
      Free (run (ops @ OpFree r' # ops')) r' = (run (ops @ OpFree r' # ops'), Inl (FreeFreed r')) \<and>
      (\<exists>m. getMeta (run (ops @ OpFree r' # ops')) r' = Inr m \<and>
           \<not> IsNil (nextFree (loadMeta (run (ops @ OpFree r' # ops')) m)))) \<and>
   (snd (Free s r'') = Inl (FreeFreed r'') \<longleftrightarrow>
      (\<exists>m. getMeta s r'' = Inr m \<and> \<not> IsNil (nextFree (loadMeta s m))))"
proof (intro conjI impI)
  assume a: "Alloc (run ops) = (s1, Inr (r, p))"
  from Alloc_ok [OF inv_run, of ops] a have "inRange s1 r" and "nf s1 r = nilRef"
    by auto
  moreover from a have "s1 = step (run ops) OpAlloc" by simp
  then have "shape s1"
    using inv_step [OF inv_run, of ops OpAlloc] by (simp add: inv_def)
  ultimately show "snd (Free s1 r) = Inr ()"
    by (simp add: Free_eq)
next
  assume h: "snd (Free (run ops) r') = Inr () \<and> \<not> allocates (run (ops @ [OpFree r'])) ops' r'"
  let ?s = "run (ops @ OpFree r' # ops')"
  have e: "?s = foldl step (run (ops @ [OpFree r'])) ops'"
    by (simp add: run_def)
  have "isFree (run (ops @ [OpFree r'])) r'"
    using isFree_after_Free [OF inv_run, of ops r'] h by (simp add: run_snoc)
  with h have f: "isFree ?s r'"
    unfolding e by (intro isFree_foldl inv_run) simp_all
  from isFree_panics(1) [OF shape_run f]
  show "Free ?s r' = (?s, Inl (FreeFreed r'))" .
  from f have "getMeta ?s r' = Inr (slot r')" and "\<not> IsNil (nextFree (loadMeta ?s (slot r')))"
    by (simp_all add: getMeta_shape shape_run isFree_def IsNil_iff nf_def)
  then show "\<exists>m. getMeta ?s r' = Inr m \<and> \<not> IsNil (nextFree (loadMeta ?s m))"
    by blast
next
  show "snd (Free s r'') = Inl (FreeFreed r'') \<longleftrightarrow>
      (\<exists>m. getMeta s r'' = Inr m \<and> \<not> IsNil (nextFree (loadMeta s m)))"
    by (auto simp: Free_def Let_def split: sum.splits if_splits dest: getMeta_Inl)
qed

theorem double_Free_panics_witness:
  "Alloc (run [OpAlloc, OpAlloc] :: nat Store) = (run [OpAlloc, OpAlloc, OpAlloc], Inr (ref13, (0, 2))) \<and>
   snd (Free (run [OpAlloc, OpAlloc, OpAlloc] :: nat Store) ref13) = Inr () \<and>
   snd (Free (run [OpAlloc, OpAlloc] :: nat Store) ref11) = Inr () \<and>
   \<not> allocates (run [OpAlloc, OpAlloc, OpFree ref11] :: nat Store)
        [OpFree ref12, OpAlloc, OpWrite (0, 1) 7] ref11 \<and>
   Free (run [OpAlloc, OpAlloc, OpFree ref11, OpFree ref12, OpAlloc, OpWrite (0, 1) 7] :: nat Store) ref11 =
     (run [OpAlloc, OpAlloc, OpFree ref11, OpFree ref12, OpAlloc, OpWrite (0, 1) 7],
      Inl (FreeFreed ref11)) \<and>
   snd (Free (run [OpAlloc, OpFree ref11] :: nat Store) ref11) = Inl (FreeFreed ref11)"
proof -
  have h1: "Alloc (run [OpAlloc, OpAlloc] :: nat Store) =
      (run [OpAlloc, OpAlloc, OpAlloc], Inr (ref13, (0, 2)))"
    by (simp add: ops_defs)
  have h2: "snd (Free (run [OpAlloc, OpAlloc] :: nat Store) ref11) = Inr ()"
    by (simp add: ops_defs)
  have h3: "\<not> allocates (run [OpAlloc, OpAlloc, OpFree ref11] :: nat Store)
        [OpFree ref12, OpAlloc, OpWrite (0, 1) 7] ref11"
    by (simp add: ops_defs)
  have h4: "\<exists>m. getMeta (run [OpAlloc, OpFree ref11] :: nat Store) ref11 = Inr m \<and>
      \<not> IsNil (nextFree (loadMeta (run [OpAlloc, OpFree ref11] :: nat Store) m))"
    by (simp add: ops_defs)
  from double_Free_panics [of "[OpAlloc, OpAlloc]" "run [OpAlloc, OpAlloc, OpAlloc] :: nat Store"
      ref13 "(0, 2)" ref11 "[OpFree ref12, OpAlloc, OpWrite (0, 1) 7]"
      "run [OpAlloc, OpFree ref11] :: nat Store" ref11]
  have "(Alloc (run [OpAlloc, OpAlloc] :: nat Store) = (run [OpAlloc, OpAlloc, OpAlloc], Inr (ref13, (0, 2))) \<longrightarrow>
       snd (Free (run [OpAlloc, OpAlloc, OpAlloc] :: nat Store) ref13) = Inr ()) \<and>
    (snd (Free (run [OpAlloc, OpAlloc] :: nat Store) ref11) = Inr () \<and>
     \<not> allocates (run [OpAlloc, OpAlloc, OpFree ref11] :: nat Store)
        [OpFree ref12, OpAlloc, OpWrite (0, 1) 7] ref11 \<longrightarrow>
     Free (run [OpAlloc, OpAlloc, OpFree ref11, OpFree ref12, OpAlloc, OpWrite (0, 1) 7] :: nat Store) ref11 =
     (run [OpAlloc, OpAlloc, OpFree ref11, OpFree ref12, OpAlloc, OpWrite (0, 1) 7],
      Inl (FreeFreed ref11))) \<and>
    (snd (Free (run [OpAlloc, OpFree ref11] :: nat Store) ref11) = Inl (FreeFreed ref11) \<longleftrightarrow>
      (\<exists>m. getMeta (run [OpAlloc, OpFree ref11] :: nat Store) ref11 = Inr m \<and>
      \<not> IsNil (nextFree (loadMeta (run [OpAlloc, OpFree ref11] :: nat Store) m))))"
    by (simp only: append.simps) blast
  with h1 h2 h3 h4 show ?thesis by blast
qed

subsection \<open>C3: Get after Free\<close>

text \<open>
  C3 as stated (after \<open>Free r\<close> \<^emph>\<open>any\<close> \<open>Get r\<close> panics) fails: references carry no
  generation, and the next \<open>Alloc\<close> hands the freed slot out again under the same
  reference, after which \<open>Get\<close> with the saved reference succeeds. The package
  documentation says so ("it isn't guaranteed that these calls will panic").
\<close>

theorem Get_after_Free_counterexample:
  "Alloc (New :: nat Store) = (run [OpAlloc], Inr (ref11, (0, 0))) \<and>
   Free (run [OpAlloc] :: nat Store) ref11 = (run [OpAlloc, OpFree ref11], Inr ()) \<and>
   Get (run [OpAlloc, OpFree ref11, OpAlloc] :: nat Store) ref11 =
     (run [OpAlloc, OpFree ref11, OpAlloc], Inr (0, 0))"
  by (simp add: ops_defs)

text \<open>
  C3, amended. After a successful \<open>Free r\<close>, \<open>Get r\<close> panics with "attempted to Get
  freed object" for as long as no \<open>Alloc\<close> has returned \<open>r\<close> again, whatever other
  operations run in between; the store is unchanged by the panicking call.
\<close>

theorem Get_after_Free_panics_until_reuse:
  assumes "snd (Free (run ops) r) = Inr ()"
    and "\<not> allocates (run (ops @ [OpFree r])) ops' r"
  shows "Get (run (ops @ OpFree r # ops')) r = (run (ops @ OpFree r # ops'), Inl (GetFreed r))"
proof -
  let ?s = "run (ops @ OpFree r # ops')"
  have e: "?s = foldl step (run (ops @ [OpFree r])) ops'"
    by (simp add: run_def)
  have "isFree (run (ops @ [OpFree r])) r"
    using isFree_after_Free [OF inv_run, of ops r] assms(1) by (simp add: run_snoc)
  with assms(2) have "isFree ?s r"
    unfolding e by (intro isFree_foldl inv_run) simp_all
  from isFree_panics(2) [OF shape_run this] show ?thesis .
qed

theorem Get_after_Free_panics_until_reuse_witness:
  "snd (Free (run [OpAlloc, OpAlloc] :: nat Store) ref11) = Inr () \<and>
   \<not> allocates (run [OpAlloc, OpAlloc, OpFree ref11] :: nat Store)
        [OpFree ref12, OpAlloc, OpWrite (0, 1) 7] ref11 \<and>
   Get (run [OpAlloc, OpAlloc, OpFree ref11, OpFree ref12, OpAlloc, OpWrite (0, 1) 7] :: nat Store) ref11 =
     (run [OpAlloc, OpAlloc, OpFree ref11, OpFree ref12, OpAlloc, OpWrite (0, 1) 7],
      Inl (GetFreed ref11))"
proof -
  have h1: "snd (Free (run [OpAlloc, OpAlloc] :: nat Store) ref11) = Inr ()"
    by (simp add: ops_defs)
  have h2: "\<not> allocates (run ([OpAlloc, OpAlloc] @ [OpFree ref11]) :: nat Store)
        [OpFree ref12, OpAlloc, OpWrite (0, 1) 7] ref11"
    by (simp add: ops_defs)
  from Get_after_Free_panics_until_reuse [OF h1 h2] h1 h2 show ?thesis
    by simp
qed

lemma chain_last: "chain f xs \<Longrightarrow> xs \<noteq> [] \<Longrightarrow> f (last xs) = last xs"
  by (induction f xs rule: chain.induct) auto

lemma freeList_empty_iff:
  assumes "freeList s xs"
  shows "xs = [] \<longleftrightarrow> IsNil (rootFree s)"
proof (cases xs)
  case Nil
  with assms show ?thesis by (simp add: freeList_root IsNil_iff)
next
  case (Cons y ys)
  with assms have "rootFree s = y" and "inRange s y"
    by (simp_all add: freeList_root freeList_inRange)
  with Cons show ?thesis
    by (auto simp: IsNil_iff dest: inRange_not_nil)
qed

lemma Free_then_Alloc:
  assumes i: "inv s" and nil: "IsNil (rootFree s)" and f: "snd (Free s r) = Inr ()"
  shows "Free s r = (freed s r, Inr ())"
    and "rootFree (freed s r) = r" and "nf (freed s r) r = r"
    and "Alloc (freed s r) = (popped (freed s r), Inr (r, slot r))"
    and "IsNil (rootFree (popped (freed s r)))"
    and "reused (popped (freed s r)) = reused s + 1"
proof -
  from i have sh: "shape s" by (simp add: inv_def)
  note fs = Free_success [OF sh f]
  show "Free s r = (freed s r, Inr ())" by (rule fs(3))
  show rt: "rootFree (freed s r) = r" by (simp add: freed_def)
  from nil show self: "nf (freed s r) r = r"
    by (simp add: nf_freed_self [OF sh fs(1)] IsNil_iff)
  have sh': "shape (freed s r)" using sh by (rule shape_freed)
  have r': "inRange (freed s r) r" by (simp add: inRange_freed fs(1))
  from fs(1) have "r \<noteq> nilRef" by (rule inRange_not_nil)
  with sh' r' rt show "Alloc (freed s r) = (popped (freed s r), Inr (r, slot r))"
    by (simp add: Alloc_eq)
  from rt self show "IsNil (rootFree (popped (freed s r)))"
    by (simp add: popped_def IsNil_iff)
  show "reused (popped (freed s r)) = reused s + 1"
    by (simp add: popped_def freed_def)
qed

subsection \<open>C2: the free list\<close>

text \<open>
  C2. After every sequence of operations on a new store, the metadata holds a free list
  \<open>fl\<close> in the sense of \<open>freeList\<close>: its references are distinct and name existing
  slots, the root is nil when the list is empty and its first reference otherwise, every node's
  \<open>nextFree\<close> is the next node and the last node's \<open>nextFree\<close> is that node itself, and
  a slot has a non-nil \<open>nextFree\<close> exactly when it is on the list. In particular no
  node of the list has a nil \<open>nextFree\<close>. Freeing a reference \<open>r\<close> into an empty free list
  makes \<open>r\<close> the root with \<open>nextFree\<close> \<open>r\<close>; the next \<open>Alloc\<close> returns \<open>r\<close>, makes
  the root nil again and increments \<open>reused\<close> (to 1 in a store that has not reused a slot
  before).
\<close>

theorem free_list_invariant:
  "(\<exists>fl. freeList (run ops) fl \<and>
         (fl = [] \<longleftrightarrow> IsNil (rootFree (run ops))) \<and>
         (fl \<noteq> [] \<longrightarrow> rootFree (run ops) = hd fl \<and> nf (run ops) (last fl) = last fl) \<and>
         (\<forall>x \<in> set fl. \<not> IsNil (nf (run ops) x))) \<and>
   (IsNil (rootFree (run ops)) \<and> snd (Free (run ops) r) = Inr () \<longrightarrow>
      rootFree (run (ops @ [OpFree r])) = r \<and>
      nf (run (ops @ [OpFree r])) r = r \<and>
      Alloc (run (ops @ [OpFree r])) = (run (ops @ [OpFree r, OpAlloc]), Inr (r, slot r)) \<and>
      IsNil (rootFree (run (ops @ [OpFree r, OpAlloc]))) \<and>
      reused (run (ops @ [OpFree r, OpAlloc])) = reused (run ops) + 1)"
proof (intro conjI impI)
  from inv_run [of ops] obtain fl where fl: "freeList (run ops) fl"
    by (auto simp: inv_def)
  have "fl = [] \<longleftrightarrow> IsNil (rootFree (run ops))"
    using fl by (rule freeList_empty_iff)
  moreover have "rootFree (run ops) = hd fl \<and> nf (run ops) (last fl) = last fl" if "fl \<noteq> []"
    using that freeList_root [OF fl] chain_last [OF freeList_chain [OF fl]]
    by (cases fl) simp_all
  moreover have "\<not> IsNil (nf (run ops) x)" if "x \<in> set fl" for x
    using that freeList_inRange [OF fl that] freeList_nil_iff [OF fl, of x]
    by (simp add: IsNil_iff)
  ultimately show "\<exists>fl. freeList (run ops) fl \<and>
         (fl = [] \<longleftrightarrow> IsNil (rootFree (run ops))) \<and>
         (fl \<noteq> [] \<longrightarrow> rootFree (run ops) = hd fl \<and> nf (run ops) (last fl) = last fl) \<and>
         (\<forall>x \<in> set fl. \<not> IsNil (nf (run ops) x))"
    using fl by blast
next
  assume h: "IsNil (rootFree (run ops)) \<and> snd (Free (run ops) r) = Inr ()"
  then have nil: "IsNil (rootFree (run ops))" and f: "snd (Free (run ops) r) = Inr ()"
    by simp_all
  note fa = Free_then_Alloc [OF inv_run nil f]
  have e1: "run (ops @ [OpFree r]) = freed (run ops) r"
    by (simp add: run_snoc fa(1))
  have e2: "run (ops @ [OpFree r, OpAlloc]) = popped (freed (run ops) r)"
    using run_snoc [of "ops @ [OpFree r]" OpAlloc] by (simp add: e1 fa(4))
  show "rootFree (run (ops @ [OpFree r])) = r"
    by (simp add: e1 fa(2))
  show "nf (run (ops @ [OpFree r])) r = r"
    by (simp add: e1 fa(3))
  show "Alloc (run (ops @ [OpFree r])) = (run (ops @ [OpFree r, OpAlloc]), Inr (r, slot r))"
    by (simp add: e1 e2 fa(4))
  show "IsNil (rootFree (run (ops @ [OpFree r, OpAlloc])))"
    by (simp add: e2 fa(5))
  show "reused (run (ops @ [OpFree r, OpAlloc])) = reused (run ops) + 1"
    by (simp add: e2 fa(6))
qed

theorem free_list_invariant_witness:
  "IsNil (rootFree (run [OpAlloc] :: nat Store)) \<and>
   snd (Free (run [OpAlloc] :: nat Store) ref11) = Inr () \<and>
   rootFree (run [OpAlloc, OpFree ref11] :: nat Store) = ref11 \<and>
   nf (run [OpAlloc, OpFree ref11] :: nat Store) ref11 = ref11 \<and>
   Alloc (run [OpAlloc, OpFree ref11] :: nat Store) =
     (run [OpAlloc, OpFree ref11, OpAlloc], Inr (ref11, (0, 0))) \<and>
   IsNil (rootFree (run [OpAlloc, OpFree ref11, OpAlloc] :: nat Store)) \<and>
   reused (run [OpAlloc, OpFree ref11, OpAlloc] :: nat Store) = 1 \<and>
   rootFree (run [OpAlloc, OpAlloc, OpFree ref11, OpFree ref12] :: nat Store) = ref12 \<and>
   nf (run [OpAlloc, OpAlloc, OpFree ref11, OpFree ref12] :: nat Store) ref12 = ref11 \<and>
   nf (run [OpAlloc, OpAlloc, OpFree ref11, OpFree ref12] :: nat Store) ref11 = ref11"
proof -
  have h1: "IsNil (rootFree (run [OpAlloc] :: nat Store))"
    by (simp add: ops_defs)
  have h2: "snd (Free (run [OpAlloc] :: nat Store) ref11) = Inr ()"
    by (simp add: ops_defs)
  have h3: "reused (run [OpAlloc] :: nat Store) = 0"
    by (simp add: ops_defs)
  have h4: "slot ref11 = (0, 0)"
    by (simp add: slot_def)
  let ?s = "run [OpAlloc, OpAlloc, OpFree ref11, OpFree ref12] :: nat Store"
  have h5: "rootFree ?s = ref12" "nf ?s ref12 = ref11" "nf ?s ref11 = ref11"
    by (simp_all add: ops_defs nf_def slot_def)
  from free_list_invariant [of "[OpAlloc] :: nat op list" ref11] h1 h2 h3 h4 h5
  show ?thesis by simp
qed

lemma acct_New: "acct (New :: 'o::zero Store) 0"
  by (simp add: acct_def New_def Let_def)

lemma acct_mono: "acct s n \<Longrightarrow> n \<le> m \<Longrightarrow> acct s m"
  unfolding acct_def by (meson le_trans)

lemma acct_bumped:
  assumes "shape s" and "acct s n"
  shows "acct (bumped s) (Suc n)"
proof -
  from assms(2) obtain a f k where *: "a \<le> n" "f \<le> n" "k \<le> a"
    "allocs s = word_of_nat a" "frees s = word_of_nat f" "reused s = word_of_nat k"
    "(length (objects s) - 1) * objectChunkSize + unat (soffset s) = a - k"
    unfolding acct_def by blast
  from assms(1) have off: "unat (soffset s) < 1024" and ne: "objects s \<noteq> []"
    by (auto simp: shape_def objectChunkSize_def)
  have "(length (objects (bumped s)) - 1) * objectChunkSize + unat (soffset (bumped s)) = Suc a - k"
  proof (cases "soffset s + 1 = 1024")
    case True
    with off have "unat (soffset s) = 1023" by (simp add: succ_eq_1024)
    with True * ne show ?thesis
      by (cases "objects s") (auto simp: bumped_def objectChunkSize_def)
  next
    case False
    with * off show ?thesis
      by (simp add: bumped_def unat_succ_u32)
  qed
  moreover have "allocs (bumped s) = word_of_nat (Suc a)"
    using * by (simp add: bumped_def)
  moreover have "frees (bumped s) = word_of_nat f" "reused (bumped s) = word_of_nat k"
    using * by (simp_all add: bumped_def)
  ultimately show ?thesis
    unfolding acct_def using *(1-3)
    by (intro exI [of _ "Suc a"] exI [of _ f] exI [of _ k]) simp
qed

lemma acct_popped:
  assumes "acct s n"
  shows "acct (popped s) (Suc n)"
proof -
  from assms obtain a f k where *: "a \<le> n" "f \<le> n" "k \<le> a"
    "allocs s = word_of_nat a" "frees s = word_of_nat f" "reused s = word_of_nat k"
    "(length (objects s) - 1) * objectChunkSize + unat (soffset s) = a - k"
    unfolding acct_def by blast
  show ?thesis
    unfolding acct_def using *
    by (intro exI [of _ "Suc a"] exI [of _ f] exI [of _ "Suc k"]) (simp add: popped_def)
qed

lemma acct_freed:
  assumes "acct s n"
  shows "acct (freed s r) (Suc n)"
proof -
  from assms obtain a f k where *: "a \<le> n" "f \<le> n" "k \<le> a"
    "allocs s = word_of_nat a" "frees s = word_of_nat f" "reused s = word_of_nat k"
    "(length (objects s) - 1) * objectChunkSize + unat (soffset s) = a - k"
    unfolding acct_def by blast
  show ?thesis
    unfolding acct_def using *
    by (intro exI [of _ a] exI [of _ "Suc f"] exI [of _ k]) (simp add: freed_def)
qed

lemma acct_storeObj: "acct (storeObj s p v) n = acct s n"
  by (simp add: acct_def storeObj_def)

lemma acct_step:
  assumes i: "inv s" and a: "acct s n"
  shows "acct (step s x) (Suc n)"
proof (cases x)
  case OpAlloc
  from i obtain xs where sh: "shape s" and fl: "freeList s xs"
    by (auto simp: inv_def)
  show ?thesis
  proof (cases "rootFree s = nilRef")
    case True
    with sh have "fst (Alloc s) = bumped s" by (simp add: Alloc_eq)
    with OpAlloc acct_bumped [OF sh a] show ?thesis by simp
  next
    case False
    with freeList_empty_iff [OF fl] obtain y ys where "xs = y # ys"
      by (cases xs) (auto simp: IsNil_iff)
    with fl have "inRange s (rootFree s)"
      by (simp add: freeList_root freeList_inRange)
    with False sh have "fst (Alloc s) = popped s" by (simp add: Alloc_eq)
    with OpAlloc acct_popped [OF a] show ?thesis by simp
  qed
next
  case (OpFree r)
  from i have sh: "shape s" by (simp add: inv_def)
  show ?thesis
  proof (cases "inRange s r \<and> nf s r = nilRef")
    case True
    with sh have "fst (Free s r) = freed s r" by (simp add: Free_eq)
    with OpFree acct_freed [OF a] show ?thesis by simp
  next
    case False
    with sh have "fst (Free s r) = s" by (auto simp: Free_eq)
    with OpFree a show ?thesis by (simp add: acct_mono)
  qed
next
  case (OpGet r)
  with a show ?thesis by (simp add: Get_fst acct_mono)
next
  case (OpWrite p v)
  with a show ?thesis by (simp add: acct_storeObj acct_mono)
qed

lemma acct_foldl: "inv s \<Longrightarrow> acct s n \<Longrightarrow> acct (foldl step s xs) (n + length xs)"
proof (induction xs arbitrary: s n)
  case Nil
  then show ?case by simp
next
  case (Cons x xs)
  from Cons.prems have "inv (step s x)" and "acct (step s x) (Suc n)"
    by (simp_all add: inv_step acct_step)
  from Cons.IH [OF this] show ?case by simp
qed

lemma acct_run: "acct (run xs) (length xs)"
  using acct_foldl [OF inv_New acct_New, of xs] by (simp add: run_def)

lemma sint_of_nat_goint: "n < 2 ^ 63 \<Longrightarrow> sint (word_of_nat n :: goint) = int n"
  by (simp add: signed_of_nat signed_take_bit_int_eq_self)

lemma sint_diff_goint:
  assumes "a < 2 ^ 63" and "b < 2 ^ 63"
  shows "sint (word_of_nat a - word_of_nat b :: goint) = int a - int b"
proof -
  have "(word_of_nat a - word_of_nat b :: goint) = word_of_int (int a - int b)"
    by simp
  moreover have "- (2 ^ 63) \<le> int a - int b" and "int a - int b < 2 ^ 63"
    using assms by simp_all
  ultimately show ?thesis
    by (simp only: signed_of_int) (simp add: signed_take_bit_int_eq_self)
qed

subsection \<open>C6: the statistics\<close>

text \<open>
  C6. After any sequence of operations on a new store that is shorter than \<open>2 ^ 63\<close> (so
  that the 64-bit counters have not wrapped around), the statistics satisfy, as signed
  integers: \<open>Live = Allocs - Frees\<close>, \<open>0 \<le> Reused \<le> Allocs\<close>,
  \<open>RawAllocs = Allocs - Reused\<close>, and \<open>Chunks\<close> is at least the ceiling of
  \<open>RawAllocs / chunkSize\<close>, where \<open>chunkSize\<close> is 1024. The two equations also hold for
  the 64-bit words themselves, for runs of any length.
\<close>

theorem stats_accounting:
  "Live (GetStats (run ops)) = Allocs (GetStats (run ops)) - Frees (GetStats (run ops)) \<and>
   RawAllocs (GetStats (run ops)) = Allocs (GetStats (run ops)) - Reused (GetStats (run ops)) \<and>
   chunkSize (run ops) = 1024 \<and>
   (length ops < 2 ^ 63 \<longrightarrow>
      sint (Live (GetStats (run ops))) =
        sint (Allocs (GetStats (run ops))) - sint (Frees (GetStats (run ops))) \<and>
      0 \<le> sint (Reused (GetStats (run ops))) \<and>
      sint (Reused (GetStats (run ops))) \<le> sint (Allocs (GetStats (run ops))) \<and>
      sint (RawAllocs (GetStats (run ops))) =
        sint (Allocs (GetStats (run ops))) - sint (Reused (GetStats (run ops))) \<and>
      ceilDiv (sint (RawAllocs (GetStats (run ops)))) (uint (chunkSize (run ops)))
        \<le> sint (Chunks (GetStats (run ops))))"
proof (intro conjI impI)
  show "Live (GetStats (run ops)) = Allocs (GetStats (run ops)) - Frees (GetStats (run ops))"
    by (simp add: GetStats_def)
  show "RawAllocs (GetStats (run ops)) = Allocs (GetStats (run ops)) - Reused (GetStats (run ops))"
    by (simp add: GetStats_def)
  show cs: "chunkSize (run ops) = 1024"
    using shape_run [of ops] by (simp add: shape_def)
  assume len: "length ops < 2 ^ 63"
  from acct_run [of ops] obtain a f k where *: "a \<le> length ops" "f \<le> length ops" "k \<le> a"
    "allocs (run ops) = word_of_nat a" "frees (run ops) = word_of_nat f"
    "reused (run ops) = word_of_nat k"
    "(length (objects (run ops)) - 1) * objectChunkSize + unat (soffset (run ops)) = a - k"
    unfolding acct_def by blast
  from * len have b: "a < 2 ^ 63" "f < 2 ^ 63" "k < 2 ^ 63"
    by simp_all
  from shape_run [of ops] have ne: "0 < length (objects (run ops))"
    and off: "unat (soffset (run ops)) < 1024"
    by (auto simp: shape_def objectChunkSize_def)
  obtain l where l: "length (objects (run ops)) = Suc l"
    using ne by (cases "length (objects (run ops))") simp_all
  from *(7) off have raw: "a - k < length (objects (run ops)) * 1024"
    and "l * 1024 \<le> a - k"
    by (simp_all add: objectChunkSize_def l)
  with *(1) len have lb: "length (objects (run ops)) < 2 ^ 63"
    by (simp add: l)
  have sa: "sint (Allocs (GetStats (run ops))) = int a"
    by (simp add: GetStats_def * sint_of_nat_goint [OF b(1)])
  have sf: "sint (Frees (GetStats (run ops))) = int f"
    by (simp add: GetStats_def * sint_of_nat_goint [OF b(2)])
  have sk: "sint (Reused (GetStats (run ops))) = int k"
    by (simp add: GetStats_def * sint_of_nat_goint [OF b(3)])
  have sl: "sint (Live (GetStats (run ops))) = int a - int f"
    by (simp add: GetStats_def * sint_diff_goint [OF b(1) b(2)])
  have sr: "sint (RawAllocs (GetStats (run ops))) = int a - int k"
    by (simp add: GetStats_def * sint_diff_goint [OF b(1) b(3)])
  have sc: "sint (Chunks (GetStats (run ops))) = int (length (objects (run ops)))"
    by (simp add: GetStats_def sint_of_nat_goint [OF lb])
  show "sint (Live (GetStats (run ops))) =
      sint (Allocs (GetStats (run ops))) - sint (Frees (GetStats (run ops)))"
    by (simp add: sa sf sl)
  show "0 \<le> sint (Reused (GetStats (run ops)))"
    by (simp add: sk)
  show "sint (Reused (GetStats (run ops))) \<le> sint (Allocs (GetStats (run ops)))"
    using *(3) by (simp add: sa sk)
  show "sint (RawAllocs (GetStats (run ops))) =
      sint (Allocs (GetStats (run ops))) - sint (Reused (GetStats (run ops)))"
    by (simp add: sa sk sr)
  have "ceilDiv (int a - int k) 1024 \<le> int (length (objects (run ops)))"
    using raw *(3) unfolding ceilDiv_def by linarith
  then show "ceilDiv (sint (RawAllocs (GetStats (run ops)))) (uint (chunkSize (run ops)))
      \<le> sint (Chunks (GetStats (run ops)))"
    by (simp add: cs sr sc)
qed

theorem stats_accounting_witness:
  "length [OpAlloc, OpAlloc, OpAlloc, OpFree ref12, OpAlloc, OpFree ref11 :: nat op] < 2 ^ 63 \<and>
   GetStats (run [OpAlloc, OpAlloc, OpAlloc, OpFree ref12, OpAlloc, OpFree ref11] :: nat Store) =
     \<lparr>Allocs = 4, Frees = 2, RawAllocs = 3, Live = 2, Reused = 1, Chunks = 1\<rparr> \<and>
   ceilDiv (sint (RawAllocs (GetStats
       (run [OpAlloc, OpAlloc, OpAlloc, OpFree ref12, OpAlloc, OpFree ref11] :: nat Store))))
     (uint (chunkSize (run [OpAlloc, OpAlloc, OpAlloc, OpFree ref12, OpAlloc, OpFree ref11] :: nat Store)))
   \<le> sint (Chunks (GetStats
       (run [OpAlloc, OpAlloc, OpAlloc, OpFree ref12, OpAlloc, OpFree ref11] :: nat Store)))"
proof -
  have h1: "length [OpAlloc, OpAlloc, OpAlloc, OpFree ref12, OpAlloc, OpFree ref11 :: nat op] < 2 ^ 63"
    by simp
  have h2: "GetStats (run [OpAlloc, OpAlloc, OpAlloc, OpFree ref12, OpAlloc, OpFree ref11] :: nat Store) =
     \<lparr>Allocs = 4, Frees = 2, RawAllocs = 3, Live = 2, Reused = 1, Chunks = 1\<rparr>"
    by (simp add: ops_defs GetStats_def)
  from stats_accounting [of "[OpAlloc, OpAlloc, OpAlloc, OpFree ref12, OpAlloc, OpFree ref11] :: nat op list"]
    h1 h2
  show ?thesis by blast
qed

lemma inRange_step: "inRange s r \<Longrightarrow> inRange (step s x) r"
proof (cases x)
  case OpAlloc
  assume r: "inRange s r"
  have "length (meta s) \<le> length (meta (fst (Alloc s)))"
    by (auto simp: Alloc_def allocFromOffset_def allocFromFree_def storeMeta_def Let_def
        split: sum.splits)
  with r OpAlloc show ?thesis by (simp add: inRange_def)
next
  case (OpFree r')
  assume r: "inRange s r"
  have "length (meta (fst (Free s r'))) = length (meta s)"
    by (auto simp: Free_def storeMeta_def Let_def split: sum.splits)
  with r OpFree show ?thesis by (simp add: inRange_def)
next
  case (OpGet r')
  assume "inRange s r"
  with OpGet show ?thesis by (simp add: Get_fst)
next
  case (OpWrite p v)
  assume "inRange s r"
  with OpWrite show ?thesis by (simp add: inRange_def)
qed

lemma inRange_foldl: "inRange s r \<Longrightarrow> inRange (foldl step s xs) r"
  by (induction xs arbitrary: s) (simp_all add: inRange_step)

lemma freeList_frees:
  "inv s \<Longrightarrow> freeList s xs \<Longrightarrow> freesOk s rs \<Longrightarrow>
   freeList (foldl step s (map OpFree rs)) (rev rs @ xs) \<and>
   reused (foldl step s (map OpFree rs)) = reused s"
proof (induction rs arbitrary: s xs)
  case Nil
  then show ?case by simp
next
  case (Cons r rs)
  from Cons.prems(1) have sh: "shape s" by (simp add: inv_def)
  from Cons.prems(3) have ok: "snd (Free s r) = Inr ()" and rest: "freesOk (fst (Free s r)) rs"
    by simp_all
  note f = Free_success [OF sh ok]
  from sh Cons.prems(2) f(1,2) have fl: "freeList (freed s r) (r # xs)"
    by (rule freeList_freed)
  have i: "inv (freed s r)"
    using inv_Free [OF Cons.prems(1), of r] by (simp add: f(3))
  from rest have "freesOk (freed s r) rs" by (simp add: f(3))
  from Cons.IH [OF i fl this] show ?case
    by (simp add: f(3) freed_def)
qed

lemma freeList_allocs:
  "inv s \<Longrightarrow> freeList s (ys @ xs) \<Longrightarrow>
   allocSeq s (length ys) = map (\<lambda>r. Inr (r, slot r)) ys \<and>
   freeList (foldl step s (replicate (length ys) OpAlloc)) xs \<and>
   reused (foldl step s (replicate (length ys) OpAlloc)) = reused s + word_of_nat (length ys)"
proof (induction ys arbitrary: s)
  case Nil
  then show ?case by simp
next
  case (Cons y ys)
  from Cons.prems(1) have sh: "shape s" by (simp add: inv_def)
  from Cons.prems(2) have rt: "rootFree s = y" and y: "inRange s y"
    by (simp_all add: freeList_root freeList_inRange)
  from y have "y \<noteq> nilRef" by (rule inRange_not_nil)
  with sh rt y have a: "Alloc s = (popped s, Inr (y, slot y))"
    by (simp add: Alloc_eq)
  from Cons.prems(2) have "freeList s (y # (ys @ xs))" by simp
  with sh have fl: "freeList (popped s) (ys @ xs)"
    by (rule freeList_popped)
  have i: "inv (popped s)"
    using inv_Alloc [OF Cons.prems(1)] by (simp add: a)
  from Cons.IH [OF i fl] show ?case
    by (simp add: a popped_def)
qed

subsection \<open>C1: free, then reuse\<close>

text \<open>
  C1 as stated fails. Allocate \<open>A\<close>, \<open>B\<close>, \<open>C\<close>, free \<open>B\<close>, allocate \<open>D\<close>: \<open>D\<close> is the
  slot of \<open>B\<close>, but a reference is a chunk and an offset with no generation, so \<open>D\<close> is the
  very same reference value as \<open>B\<close>, and \<open>Get\<close> with the saved \<open>B\<close> does not panic: it
  returns the pointer to the slot that \<open>D\<close> now owns.
\<close>

theorem free_reuse_counterexample:
  "Alloc (run [OpAlloc] :: nat Store) = (run [OpAlloc, OpAlloc], Inr (ref12, (0, 1))) \<and>
   Free (run [OpAlloc, OpAlloc, OpAlloc] :: nat Store) ref12 =
     (run [OpAlloc, OpAlloc, OpAlloc, OpFree ref12], Inr ()) \<and>
   Alloc (run [OpAlloc, OpAlloc, OpAlloc, OpFree ref12] :: nat Store) =
     (run [OpAlloc, OpAlloc, OpAlloc, OpFree ref12, OpAlloc], Inr (ref12, (0, 1))) \<and>
   Get (run [OpAlloc, OpAlloc, OpAlloc, OpFree ref12, OpAlloc] :: nat Store) ref12 =
     (run [OpAlloc, OpAlloc, OpAlloc, OpFree ref12, OpAlloc], Inr (0, 1))"
  by (simp add: ops_defs)

text \<open>
  C1, amended. In any reachable store, when the references \<open>rs\<close> are freed one after the
  other and every \<open>Free\<close> succeeds (so they name distinct slots), the next \<open>length rs\<close>
  calls of \<open>Alloc\<close> return exactly the freed references, last freed first, each with the
  pointer to its own slot \<open>slot r\<close>; every one of them counts as reused; afterwards the root
  of the free list is what it was before the frees (nil if the free list was empty), and
  \<open>Get\<close> with each of the saved references succeeds.
\<close>

theorem free_reuse_LIFO:
  assumes "freesOk (run ops) rs"
  shows "allocSeq (run (ops @ map OpFree rs)) (length rs) = map (\<lambda>r. Inr (r, slot r)) (rev rs) \<and>
    distinct rs \<and>
    rootFree (run (ops @ map OpFree rs @ replicate (length rs) OpAlloc)) = rootFree (run ops) \<and>
    reused (run (ops @ map OpFree rs @ replicate (length rs) OpAlloc)) =
      reused (run ops) + word_of_nat (length rs) \<and>
    (\<forall>r \<in> set rs.
       Get (run (ops @ map OpFree rs @ replicate (length rs) OpAlloc)) r =
         (run (ops @ map OpFree rs @ replicate (length rs) OpAlloc), Inr (slot r)))"
proof -
  let ?s = "run ops"
  let ?m = "run (ops @ map OpFree rs)"
  let ?f = "run (ops @ map OpFree rs @ replicate (length rs) OpAlloc)"
  from inv_run [of ops] obtain xs where fl: "freeList ?s xs"
    by (auto simp: inv_def)
  have m: "?m = foldl step ?s (map OpFree rs)"
    by (rule run_append)
  have f: "?f = foldl step ?m (replicate (length rs) OpAlloc)"
    using run_append [of "ops @ map OpFree rs" "replicate (length rs) OpAlloc"] by simp
  from freeList_frees [OF inv_run fl assms]
  have flm: "freeList ?m (rev rs @ xs)" and rm: "reused ?m = reused ?s"
    by (simp_all add: m)
  from freeList_allocs [OF inv_run flm]
  have seq: "allocSeq ?m (length rs) = map (\<lambda>r. Inr (r, slot r)) (rev rs)"
    and flf: "freeList ?f xs"
    and rf: "reused ?f = reused ?m + word_of_nat (length rs)"
    by (simp_all add: f)
  from freeList_distinct [OF flm] have d: "distinct rs" and dis: "set rs \<inter> set xs = {}"
    by auto
  have root: "rootFree ?f = rootFree ?s"
    by (simp add: freeList_root [OF flf] freeList_root [OF fl])
  have get: "Get ?f r = (?f, Inr (slot r))" if "r \<in> set rs" for r
  proof -
    from that have "inRange ?m r"
      by (intro freeList_inRange [OF flm]) simp
    then have rng: "inRange ?f r"
      unfolding f by (rule inRange_foldl)
    from that dis have "r \<notin> set xs" by auto
    with freeList_nil_iff [OF flf rng] have "nf ?f r = nilRef" by simp
    with rng show ?thesis
      by (simp add: Get_eq shape_run)
  qed
  from seq d root rf rm get show ?thesis
    by simp
qed

theorem free_reuse_LIFO_witness:
  "freesOk (run [OpAlloc, OpAlloc, OpAlloc] :: nat Store) [ref12, ref11] \<and>
   allocSeq (run [OpAlloc, OpAlloc, OpAlloc, OpFree ref12, OpFree ref11] :: nat Store) 2 =
     [Inr (ref11, (0, 0)), Inr (ref12, (0, 1))] \<and>
   rootFree (run [OpAlloc, OpAlloc, OpAlloc, OpFree ref12, OpFree ref11, OpAlloc, OpAlloc] :: nat Store) =
     nilRef \<and>
   reused (run [OpAlloc, OpAlloc, OpAlloc, OpFree ref12, OpFree ref11, OpAlloc, OpAlloc] :: nat Store) = 2 \<and>
   snd (Get (run [OpAlloc, OpAlloc, OpAlloc, OpFree ref12, OpFree ref11, OpAlloc, OpAlloc] :: nat Store)
     ref12) = Inr (0, 1)"
proof -
  have h1: "freesOk (run [OpAlloc, OpAlloc, OpAlloc] :: nat Store) [ref12, ref11]"
    by (simp add: ops_defs)
  have h2: "rootFree (run [OpAlloc, OpAlloc, OpAlloc] :: nat Store) = nilRef"
    "reused (run [OpAlloc, OpAlloc, OpAlloc] :: nat Store) = 0"
    by (simp_all add: ops_defs)
  have h3: "slot ref11 = (0, 0)" "slot ref12 = (0, 1)"
    by (simp_all add: slot_def)
  from free_reuse_LIFO [OF h1] h1 h2 h3 show ?thesis
    by (simp add: numeral_2_eq_2)
qed

lemma Get_success:
  assumes "shape s" and "snd (Get s r) = Inr p"
  shows "inRange s r" and "nf s r = nilRef" and "p = slot r"
  using assms by (auto simp: Get_eq split: if_splits)

lemma Get_live: "shape s \<Longrightarrow> inRange s r \<Longrightarrow> nf s r = nilRef \<Longrightarrow> Get s r = (s, Inr (slot r))"
  by (simp add: Get_eq)

lemma loadObj_bumped_old:
  assumes "shape s" and "inRange s r"
  shows "loadObj (bumped s) (slot r) = loadObj s (slot r)"
  using assms by (auto simp: loadObj_def slot_def bumped_def inRange_def shape_def nth_append)

lemma inRange_bumped: "inRange s r \<Longrightarrow> inRange (bumped s) r"
  by (auto simp: inRange_def bumped_def)

lemma live_Alloc:
  assumes i: "inv s" and r: "inRange s r" and n: "nf s r = nilRef"
  shows "inRange (fst (Alloc s)) r" and "nf (fst (Alloc s)) r = nilRef"
    and "loadObj (fst (Alloc s)) (slot r) = loadObj s (slot r)"
proof -
  from i obtain xs where sh: "shape s" and fl: "freeList s xs"
    by (auto simp: inv_def)
  have "inRange (fst (Alloc s)) r \<and> nf (fst (Alloc s)) r = nilRef \<and>
    loadObj (fst (Alloc s)) (slot r) = loadObj s (slot r)"
  proof (cases xs)
    case Nil
    with fl have "rootFree s = nilRef" by (simp add: freeList_root)
    with sh have "fst (Alloc s) = bumped s" by (simp add: Alloc_eq)
    with sh r n show ?thesis
      by (simp add: inRange_bumped nf_bumped_old loadObj_bumped_old)
  next
    case (Cons y ys)
    with fl have rt: "rootFree s = y" and y: "inRange s y"
      by (simp_all add: freeList_root freeList_inRange)
    from y have "y \<noteq> nilRef" by (rule inRange_not_nil)
    with sh rt y have a: "fst (Alloc s) = popped s" by (simp add: Alloc_eq)
    from freeList_nil_iff [OF fl y] Cons have "nf s y \<noteq> nilRef" by simp
    with n have "r \<noteq> y" by auto
    with sh rt y r have "nf (popped s) r = nf s r"
      using nf_popped_other [of s r] by simp
    moreover have "loadObj (popped s) (slot r) = loadObj s (slot r)"
      by (simp add: loadObj_def popped_def)
    ultimately show ?thesis
      using a r n by (simp add: inRange_popped)
  qed
  then show "inRange (fst (Alloc s)) r" and "nf (fst (Alloc s)) r = nilRef"
    and "loadObj (fst (Alloc s)) (slot r) = loadObj s (slot r)"
    by simp_all
qed

lemma live_Allocs:
  "inv s \<Longrightarrow> inRange s r \<Longrightarrow> nf s r = nilRef \<Longrightarrow>
   inRange (foldl step s (replicate n OpAlloc)) r \<and>
   nf (foldl step s (replicate n OpAlloc)) r = nilRef \<and>
   loadObj (foldl step s (replicate n OpAlloc)) (slot r) = loadObj s (slot r)"
proof (induction n arbitrary: s)
  case 0
  then show ?case by simp
next
  case (Suc n)
  note l = live_Alloc [OF Suc.prems]
  from Suc.prems(1) have "inv (fst (Alloc s))" by (rule inv_Alloc)
  from Suc.IH [OF this l(1,2)] l(3) show ?case by simp
qed

lemma loadObj_storeObj:
  assumes "shape s" and "inRange s r"
  shows "loadObj (storeObj s (slot r) v) (slot r) = v"
  using slot_bounds(3,4) [OF assms] by (simp add: loadObj_def storeObj_def)

lemma nf_storeObj [simp]: "nf (storeObj s p v) r = nf s r"
  by (simp add: nf_def loadMeta_def)

lemma inRange_storeObj [simp]: "inRange (storeObj s p v) r = inRange s r"
  by (simp add: inRange_def)

subsection \<open>C5: round trip and stability\<close>

text \<open>
  C5. For the reference \<open>r\<close> and the pointer \<open>p\<close> that \<open>Alloc\<close> returns in any reachable
  store, \<open>Get r\<close> returns the same pointer \<open>p\<close>, and after writing \<open>v\<close> through \<open>p\<close> a
  further \<open>Get r\<close> still returns \<open>p\<close> and reading \<open>p\<close> gives \<open>v\<close>. For every reference on
  which \<open>Get\<close> succeeds with pointer \<open>p\<close>, after any number \<open>n\<close> of further allocations
  \<open>Get\<close> returns the same pointer and the object read through it is the same value:
  \<open>Alloc\<close> writes no object and moves none.
\<close>

theorem round_trip_and_stability:
  "(Alloc (run ops) = (s1, Inr (r, p)) \<longrightarrow>
      Get s1 r = (s1, Inr p) \<and>
      Get (storeObj s1 p v) r = (storeObj s1 p v, Inr p) \<and>
      loadObj (storeObj s1 p v) p = v) \<and>
   (Get (run ops) r' = (run ops, Inr p') \<longrightarrow>
      Get (run (ops @ replicate n OpAlloc)) r' = (run (ops @ replicate n OpAlloc), Inr p') \<and>
      loadObj (run (ops @ replicate n OpAlloc)) p' = loadObj (run ops) p')"
proof (intro conjI impI)
  assume a: "Alloc (run ops) = (s1, Inr (r, p))"
  from Alloc_ok [OF inv_run, of ops] a have p: "p = slot r" and rng: "inRange s1 r"
    and n: "nf s1 r = nilRef"
    by auto
  from a have "s1 = step (run ops) OpAlloc" by simp
  then have sh: "shape s1"
    using inv_step [OF inv_run, of ops OpAlloc] by (simp add: inv_def)
  from sh rng n show "Get s1 r = (s1, Inr p)"
    by (simp add: Get_live p)
  from sh have "shape (storeObj s1 p v)" by (rule shape_storeObj)
  with rng n show "Get (storeObj s1 p v) r = (storeObj s1 p v, Inr p)"
    by (simp add: Get_live p)
  from sh rng show "loadObj (storeObj s1 p v) p = v"
    by (simp add: p loadObj_storeObj)
next
  assume g: "Get (run ops) r' = (run ops, Inr p')"
  then have "snd (Get (run ops) r') = Inr p'" by simp
  note gs = Get_success [OF shape_run this]
  let ?f = "run (ops @ replicate n OpAlloc)"
  have f: "?f = foldl step (run ops) (replicate n OpAlloc)"
    by (rule run_append)
  from live_Allocs [OF inv_run gs(1,2), of n]
  have "inRange ?f r'" and "nf ?f r' = nilRef" and l: "loadObj ?f (slot r') = loadObj (run ops) (slot r')"
    by (simp_all add: f)
  then show "Get ?f r' = (?f, Inr p')"
    by (simp add: Get_live shape_run gs(3))
  from l show "loadObj ?f p' = loadObj (run ops) p'"
    by (simp add: gs(3))
qed

theorem round_trip_and_stability_witness:
  "Alloc (run [OpAlloc, OpAlloc, OpWrite (0, 1) 42] :: nat Store) =
     (run [OpAlloc, OpAlloc, OpWrite (0, 1) 42, OpAlloc], Inr (ref13, (0, 2))) \<and>
   Get (storeObj (run [OpAlloc, OpAlloc, OpWrite (0, 1) 42, OpAlloc] :: nat Store) (0, 2) 7) ref13 =
     (storeObj (run [OpAlloc, OpAlloc, OpWrite (0, 1) 42, OpAlloc]) (0, 2) 7, Inr (0, 2)) \<and>
   loadObj (storeObj (run [OpAlloc, OpAlloc, OpWrite (0, 1) 42, OpAlloc] :: nat Store) (0, 2) 7) (0, 2) = 7 \<and>
   Get (run [OpAlloc, OpAlloc, OpWrite (0, 1) 42] :: nat Store) ref12 =
     (run [OpAlloc, OpAlloc, OpWrite (0, 1) 42], Inr (0, 1)) \<and>
   Get (run [OpAlloc, OpAlloc, OpWrite (0, 1) 42, OpAlloc, OpAlloc, OpAlloc] :: nat Store) ref12 =
     (run [OpAlloc, OpAlloc, OpWrite (0, 1) 42, OpAlloc, OpAlloc, OpAlloc], Inr (0, 1)) \<and>
   loadObj (run [OpAlloc, OpAlloc, OpWrite (0, 1) 42, OpAlloc, OpAlloc, OpAlloc] :: nat Store) (0, 1) = 42"
proof -
  have h1: "Alloc (run [OpAlloc, OpAlloc, OpWrite (0, 1) 42] :: nat Store) =
     (run [OpAlloc, OpAlloc, OpWrite (0, 1) 42, OpAlloc], Inr (ref13, (0, 2)))"
    by (simp add: ops_defs)
  have h2: "Get (run [OpAlloc, OpAlloc, OpWrite (0, 1) 42] :: nat Store) ref12 =
     (run [OpAlloc, OpAlloc, OpWrite (0, 1) 42], Inr (0, 1))"
    by (simp add: ops_defs)
  have h3: "loadObj (run [OpAlloc, OpAlloc, OpWrite (0, 1) 42] :: nat Store) (0, 1) = 42"
    by (simp add: ops_defs)
  have h4: "[OpAlloc, OpAlloc, OpWrite (0, 1) 42] @ replicate 3 OpAlloc =
      [OpAlloc, OpAlloc, OpWrite (0, 1) 42, OpAlloc, OpAlloc, OpAlloc :: nat op]"
    by (simp add: numeral_3_eq_3)
  note t = round_trip_and_stability [of "[OpAlloc, OpAlloc, OpWrite (0, 1) 42] :: nat op list"
      "run [OpAlloc, OpAlloc, OpWrite (0, 1) 42, OpAlloc] :: nat Store" ref13 "(0, 2)" 7
      ref12 "(0, 1)" 3, unfolded h4]
  from t [THEN conjunct1, THEN mp, OF h1] t [THEN conjunct2, THEN mp, OF h2] h1 h2 h3
  show ?thesis by simp
qed

lemma setGen_address: "dataAddress (setGen r g) AND mask 56 = dataAddress r AND mask 56"
  unfolding setGen_def
  by (rule bit_eqI) (auto simp: bit_simps)

lemma Gen_setGen: "Gen (setGen r g) = g"
  unfolding setGen_def Gen_def
  by (rule bit_eqI) (auto simp: bit_simps)

lemma metaAddress_setGen: "metaAddress (setGen r g) = metaAddress r"
  by (simp add: setGen_def)

lemma mask56_4096: "(4096 :: u64) AND mask 56 = 4096"
  by (simp add: mask_eq_iff)

lemma Gen_4096: "Gen \<lparr>dataAddress = 4096, metaAddress = 8192\<rparr> = 0"
  by (simp add: Gen_def drop_bit_eq_div)

subsection \<open>C8: the contract of Realloc\<close>

text \<open>
  C8. For a valid reference \<open>r\<close> (its generation is the one in the metadata), the reference
  \<open>r2\<close> that \<open>Realloc\<close> returns has the data pointer and the metadata pointer of \<open>r\<close>
  and a different generation; after the call \<open>r2\<close> is usable (both accessors succeed) and
  \<open>r\<close> is not (both accessors fail with \<open>UseAfterFree\<close>).
\<close>

theorem Realloc_contract:
  assumes "h (metaAddress r) = Gen r" and "Realloc h r = (h', r2)"
  shows "DataPtr h' r2 = DataPtr h r \<and> metadataPtr h' r2 = metadataPtr h r \<and>
    Gen r2 \<noteq> Gen r \<and>
    DataPtr h' r2 = Inr (dataAddress r AND mask 56) \<and> metadataPtr h' r2 = Inr (metaAddress r) \<and>
    DataPtr h' r = Inl UseAfterFree \<and> metadataPtr h' r = Inl UseAfterFree"
proof -
  from assms(2) have h': "h' = h(metaAddress r := Gen r + 1)" and r2: "r2 = setGen r (Gen r + 1)"
    by (simp_all add: Realloc_def Let_def assms(1))
  have ne: "Gen r + 1 \<noteq> Gen r"
    by simp
  have g2: "Gen r2 = Gen r + 1"
    by (simp add: r2 Gen_setGen)
  have m2: "metaAddress r2 = metaAddress r"
    by (simp add: r2 metaAddress_setGen)
  have d2: "dataAddress r2 AND mask 56 = dataAddress r AND mask 56"
    by (simp add: r2 setGen_address)
  have new: "DataPtr h' r2 = Inr (dataAddress r AND mask 56)" "metadataPtr h' r2 = Inr (metaAddress r)"
    by (simp_all add: DataPtr_def metadataPtr_def h' g2 m2 d2)
  have old: "DataPtr h r = Inr (dataAddress r AND mask 56)" "metadataPtr h r = Inr (metaAddress r)"
    by (simp_all add: DataPtr_def metadataPtr_def assms(1))
  have stale: "DataPtr h' r = Inl UseAfterFree" "metadataPtr h' r = Inl UseAfterFree"
    using ne by (simp_all add: DataPtr_def metadataPtr_def h')
  from new old stale g2 ne show ?thesis
    by simp
qed

theorem Realloc_contract_witness:
  "(\<lambda>a. 0) (metaAddress \<lparr>dataAddress = 4096, metaAddress = 8192\<rparr>) =
     Gen \<lparr>dataAddress = 4096, metaAddress = 8192\<rparr> \<and>
   Realloc (\<lambda>a. 0) \<lparr>dataAddress = 4096, metaAddress = 8192\<rparr> =
     ((\<lambda>a. 0)(8192 := 1), setGen \<lparr>dataAddress = 4096, metaAddress = 8192\<rparr> 1) \<and>
   DataPtr ((\<lambda>a. 0)(8192 := 1)) (setGen \<lparr>dataAddress = 4096, metaAddress = 8192\<rparr> 1) =
     Inr 4096 \<and>
   metadataPtr ((\<lambda>a. 0)(8192 := 1)) (setGen \<lparr>dataAddress = 4096, metaAddress = 8192\<rparr> 1) =
     Inr 8192 \<and>
   Gen (setGen \<lparr>dataAddress = 4096, metaAddress = 8192\<rparr> 1) \<noteq>
     Gen \<lparr>dataAddress = 4096, metaAddress = 8192\<rparr> \<and>
   DataPtr ((\<lambda>a. 0)(8192 := 1)) \<lparr>dataAddress = 4096, metaAddress = 8192\<rparr> =
     Inl UseAfterFree"
proof -
  let ?r = "\<lparr>dataAddress = 4096, metaAddress = 8192\<rparr>"
  have h1: "(\<lambda>a. 0) (metaAddress ?r) = Gen ?r"
    by (simp add: Gen_4096)
  have h2: "Realloc (\<lambda>a. 0) ?r = ((\<lambda>a. 0)(8192 := 1), setGen ?r 1)"
    by (simp add: Realloc_def Let_def)
  have m: "dataAddress ?r AND mask 56 = 4096" "metaAddress ?r = 8192"
    by (simp_all add: mask56_4096)
  note t = Realloc_contract [OF h1 h2, unfolded m]
  have "Gen (setGen ?r 1) \<noteq> Gen ?r"
    using t by blast
  moreover have "DataPtr ((\<lambda>a. 0)(8192 := 1)) (setGen ?r 1) = Inr 4096"
    using t by blast
  moreover have "metadataPtr ((\<lambda>a. 0)(8192 := 1)) (setGen ?r 1) = Inr 8192"
    using t by blast
  moreover have "DataPtr ((\<lambda>a. 0)(8192 := 1)) ?r = Inl UseAfterFree"
    using t by blast
  ultimately show ?thesis
    using h1 h2 by blast
qed

subsection \<open>C9: the generation tag stays hidden\<close>

text \<open>
  C9. Storing any generation \<open>g\<close> in a reference changes neither the 56 address bits
  of its data address word nor its metadata address, and the accessors return the data
  address with the top 8 bits masked out. So with the same generation written to the slot
  metadata, as the test does, both accessors succeed and return what they returned before the
  generation was changed, while \<open>Gen\<close> returns \<open>g\<close>.
\<close>

theorem generation_hidden:
  "dataAddress (setGen r g) AND mask 56 = dataAddress r AND mask 56 \<and>
   metaAddress (setGen r g) = metaAddress r \<and>
   Gen (setGen r g) = g \<and>
   DataPtr (h(metaAddress r := g)) (setGen r g) = Inr (dataAddress r AND mask 56) \<and>
   metadataPtr (h(metaAddress r := g)) (setGen r g) = Inr (metaAddress r) \<and>
   drop_bit 56 (dataAddress r AND mask 56) = 0 \<and>
   (h (metaAddress r) = Gen r \<longrightarrow>
      DataPtr (h(metaAddress r := g)) (setGen r g) = DataPtr h r \<and>
      metadataPtr (h(metaAddress r := g)) (setGen r g) = metadataPtr h r)"
proof -
  have top: "drop_bit 56 (dataAddress r AND mask 56) = 0"
    by (rule bit_eqI) (auto simp: bit_simps)
  have acc: "DataPtr (h(metaAddress r := g)) (setGen r g) = Inr (dataAddress r AND mask 56)"
    "metadataPtr (h(metaAddress r := g)) (setGen r g) = Inr (metaAddress r)"
    by (simp_all add: DataPtr_def metadataPtr_def Gen_setGen metaAddress_setGen setGen_address)
  have old: "DataPtr h r = Inr (dataAddress r AND mask 56)" "metadataPtr h r = Inr (metaAddress r)"
    if "h (metaAddress r) = Gen r"
    using that by (simp_all add: DataPtr_def metadataPtr_def)
  from acc old top setGen_address [of r g] metaAddress_setGen [of r g] Gen_setGen [of r g]
  show ?thesis
    by metis
qed

theorem generation_hidden_witness:
  "(\<lambda>a. 0) (metaAddress \<lparr>dataAddress = 4096, metaAddress = 8192\<rparr>) =
     Gen \<lparr>dataAddress = 4096, metaAddress = 8192\<rparr> \<and>
   DataPtr (\<lambda>a. 0) \<lparr>dataAddress = 4096, metaAddress = 8192\<rparr> = Inr 4096 \<and>
   metadataPtr (\<lambda>a. 0) \<lparr>dataAddress = 4096, metaAddress = 8192\<rparr> = Inr 8192 \<and>
   DataPtr ((\<lambda>a. 0)(8192 := 255)) (setGen \<lparr>dataAddress = 4096, metaAddress = 8192\<rparr> 255) =
     Inr 4096 \<and>
   metadataPtr ((\<lambda>a. 0)(8192 := 255)) (setGen \<lparr>dataAddress = 4096, metaAddress = 8192\<rparr> 255) =
     Inr 8192 \<and>
   Gen (setGen \<lparr>dataAddress = 4096, metaAddress = 8192\<rparr> 255) = 255 \<and>
   dataAddress (setGen \<lparr>dataAddress = 4096, metaAddress = 8192\<rparr> 255) \<noteq> 4096"
proof -
  let ?r = "\<lparr>dataAddress = 4096, metaAddress = 8192\<rparr>"
  have h1: "(\<lambda>a. 0) (metaAddress ?r) = Gen ?r"
    by (simp add: Gen_4096)
  have h2: "DataPtr (\<lambda>a. 0) ?r = Inr 4096" "metadataPtr (\<lambda>a. 0) ?r = Inr 8192"
    by (simp_all add: DataPtr_def metadataPtr_def Gen_4096 mask56_4096)
  have h3: "dataAddress (setGen ?r 255) \<noteq> 4096"
  proof
    assume "dataAddress (setGen ?r 255) = 4096"
    then have "Gen (setGen ?r 255) = Gen ?r"
      by (simp add: Gen_def)
    then show False
      by (simp add: Gen_setGen Gen_4096)
  qed
  have m: "dataAddress ?r AND mask 56 = 4096" "metaAddress ?r = 8192"
    by (simp_all add: mask56_4096)
  note t = generation_hidden [of ?r 255 "\<lambda>a. 0", unfolded m]
  have "DataPtr ((\<lambda>a. 0)(8192 := 255)) (setGen ?r 255) = Inr 4096"
    using t by blast
  moreover have "metadataPtr ((\<lambda>a. 0)(8192 := 255)) (setGen ?r 255) = Inr 8192"
    using t by blast
  moreover have "Gen (setGen ?r 255) = 255"
    using t by blast
  ultimately show ?thesis
    using h1 h2 h3 by blast
qed

end
